theory Spec2Isabelle
  imports Main "HOL-Library.AList" "HOL-Library.Sublist"
begin

section \<open>JavaScript values\<close>

text \<open>
  An object is known by its identity and by its \<open>_emitterName\<close> property, which
  \<open>defineEmitter\<close> installs non-writable and non-configurable (\<open>None\<close>: the
  object has no such property).
\<close>

datatype obj = Obj (oid: nat) (emitterName: "string option")

datatype jsval = JUndefined | JNull | JBool bool | JNum int | JStr string | JObj obj

fun truthy :: "jsval \<Rightarrow> bool" where
  "truthy JUndefined = False"
| "truthy JNull = False"
| "truthy (JBool b) = b"
| "truthy (JNum n) = (n \<noteq> 0)"
| "truthy (JStr s) = (s \<noteq> [])"
| "truthy (JObj x) = True"

text \<open>The \<open>Event\<close> object itself (\<open>instance\<close> in the source); it carries no emitter name.\<close>

definition Event_instance :: obj where
  "Event_instance = Obj 0 None"

section \<open>Topic strings and the four regular expressions\<close>

text \<open>The character class \<open>(?:\w|-|#)\<close>: letters, digits, underscore, minus and hash.\<close>

definition name_char :: "char \<Rightarrow> bool" where
  "name_char c =
     (let n = (of_char c :: nat)
      in (48 \<le> n \<and> n \<le> 57) \<or> (65 \<le> n \<and> n \<le> 90) \<or> (97 \<le> n \<and> n \<le> 122)
         \<or> n = 95 \<or> n = 45 \<or> n = 35)"

definition is_name :: "string \<Rightarrow> bool" where
  "is_name s = (s \<noteq> [] \<and> list_all name_char s)"

definition is_wname :: "string \<Rightarrow> bool" where
  "is_wname s = (is_name s \<or> s = ''*'')"

definition has_colon :: "string \<Rightarrow> bool" where
  "has_colon s = (CHR '':'' \<in> set s)"

definition before_colon :: "string \<Rightarrow> string" where
  "before_colon s = takeWhile (\<lambda>c. c \<noteq> CHR '':'') s"

definition after_colon :: "string \<Rightarrow> string" where
  "after_colon s = drop 1 (dropWhile (\<lambda>c. c \<noteq> CHR '':'') s)"

text \<open>
  \<open>REGEXP_CUSTOMEVENT = /^((?:\w|-|#)+):((?:\w|-|#)+)$/\<close>. A name holds no colon, so a
  match splits the string at its first colon; the result is \<open>(extract[1], extract[2])\<close>.
\<close>

definition match_customevent :: "string \<Rightarrow> (string \<times> string) option" where
  "match_customevent s =
     (if has_colon s \<and> is_name (before_colon s) \<and> is_name (after_colon s)
      then Some (before_colon s, after_colon s) else None)"

text \<open>
  \<open>REGEXP_WILDCARD_CUSTOMEVENT = /^(?:((?:(?:\w|-|#)+)|\*):)?((?:(?:\w|-|#)+)|\*)$/\<close>.
  \<open>extract[1]\<close> is undefined (\<open>None\<close>) when the string has no \<open>emitter:\<close> prefix.
\<close>

definition match_wildcard :: "string \<Rightarrow> (string option \<times> string) option" where
  "match_wildcard s =
     (if has_colon s
      then (if is_wname (before_colon s) \<and> is_wname (after_colon s)
            then Some (Some (before_colon s), after_colon s) else None)
      else (if is_wname s then Some (None, s) else None))"

text \<open>
  \<open>customEvent.replace(REGEXP_EVENTNAME_WITH_SEMICOLON, ':*')\<close> with
  \<open>/:((?:\w|-|#)+)$/\<close>: the match, if any, is the last colon followed by a name up to
  the end of the string.
\<close>

definition replace_eventname :: "string \<Rightarrow> string" where
  "replace_eventname s =
     (let tl_rev = takeWhile (\<lambda>c. c \<noteq> CHR '':'') (rev s)
      in if has_colon s \<and> is_name (rev tl_rev)
         then take (length s - length tl_rev) s @ ''*''
         else s)"

text \<open>
  \<open>customEvent.replace(REGEXP_EMITTERNAME_WITH_SEMICOLON, '*:')\<close> with
  \<open>/^((?:\w|-|#)+):/\<close>: the match, if any, is a name from the start up to the first colon.
\<close>

definition replace_emittername :: "string \<Rightarrow> string" where
  "replace_emittername s =
     (if has_colon s \<and> is_name (before_colon s)
      then ''*:'' @ after_colon s
      else s)"

definition WILDCARD_WILDCARD :: string where
  "WILDCARD_WILDCARD = ''*:*''"

section \<open>Functions, subscribers and the registries\<close>

text \<open>
  A property slot of an object: a data property with its value and its \<open>writable\<close>,
  \<open>enumerable\<close> and \<open>configurable\<close> flags, or an accessor property with its getter
  (known by identity) and its \<open>enumerable\<close> and \<open>configurable\<close> flags.
\<close>

datatype descriptor =
    Data jsval bool bool bool
  | Accessor nat bool bool

text \<open>
  A payload object: its own properties in creation order, and the properties it inherits
  through its prototype chain.
\<close>

record payload =
  own :: "(string \<times> descriptor) list"
  inherited :: "(string \<times> descriptor) list"

text \<open>
  What a callback does is a finite script over the API that the dispatcher hands to it:
  \<open>e.halt(reason)\<close>, \<open>e.preventDefault(reason)\<close>, \<open>e.preventDefaultContinue(reason)\<close>,
  the assignment \<open>e.silent = v\<close>, and \<open>Event.emit(emitter, customEvent, payload)\<close>.
  A function is its identity (two function objects with the same text are different
  functions), its script and the value it returns. Callbacks that throw, or that subscribe,
  detach or define events while a dispatch is running, are outside this model.
\<close>

datatype action =
    Halt jsval
  | PreventDefault jsval
  | PreventDefaultContinue jsval
  | SetSilent jsval
  | Emit obj string "payload option"

datatype fn = Fn (fid: nat) (body: "action list") (ret: jsval)

text \<open>
  A subscriber's callback is the function the caller passed, or the \<open>wrapperFn\<close> closure
  that \<open>onceBefore\<close>/\<open>onceAfter\<close> build around it; the closure is known by the
  identity of the handler it closes over.
\<close>

datatype callback = Plain fn | Wrapper nat fn

record subscriber =
  sub_o :: obj
  sub_cb :: callback
  sub_f :: "fn option"
  sub_s :: bool

record bucket =
  bucket_b :: "subscriber list option"
  bucket_a :: "subscriber list option"

record ce_definition =
  preventable :: bool
  defaultFn :: "fn option"
  preventedFn :: "fn option"
  unHaltable :: bool
  unSilencable :: bool
  unPreventable :: bool

text \<open>
  A notifier \<open>{cb, o, r}\<close>. Its callback is known by identity only: the dispatcher calls
  it, and what it does then is outside this model.
\<close>

record notifier =
  n_cb :: nat
  n_o :: jsval
  n_r :: jsval

text \<open>The closure data of the object \<open>{detach: ...}\<close> that \<open>_addSubscriber\<close> returns.\<close>

record sub_handle =
  h_listener :: "obj option"
  h_before :: bool
  h_customEvent :: string
  h_callback :: callback

datatype handle = Single sub_handle | Multi "sub_handle option list"

datatype stage = Before | Default | After

datatype console_msg =
    SubscribeNoMatch string
  | SubscribeThisNoEmitter
  | RemoveNoMatch string
  | EmitNoMatch string
  | DefineNoMatch string
  | EmitLoop string
  | CannotSilence string

text \<open>
  The trace records every call the dispatcher makes to a function it was given, every call
  a callback makes to the event object, and every console message. Entries made while
  a topic is dispatched carry that topic.
\<close>

datatype log_entry =
    Invoked string stage subscriber
  | UserCallback string stage nat fn
  | FilterCalled string stage subscriber
  | Api string stage action
  | DefaultFnCalled string fn
  | PreventedFnCalled string fn
  | Notified string nat jsval string subscriber
  | DetachNotified string nat jsval string
  | ConsoleError console_msg
  | ConsoleWarn console_msg

record state =
  subs :: "(string \<times> bucket) list"
  ce :: "string \<rightharpoonup> ce_definition"
  notifiers :: "string \<rightharpoonup> notifier"
  detachNotifiers :: "string \<rightharpoonup> notifier"
  runningEvents :: "string set"
  defaultEventObj :: "string list"
  getterResult :: "nat \<Rightarrow> jsval"
  detachedFlag :: "nat set"
  handlers :: "nat \<rightharpoonup> handle"
  nextHandler :: nat
  timers :: "nat list"
  trace :: "log_entry list"

text \<open>
  \<open>subs\<close>, \<open>ce\<close>, \<open>notifiers\<close>, \<open>detachNotifiers\<close> and \<open>runningEvents\<close> are the
  objects \<open>_subs\<close>, \<open>_ce\<close>, \<open>_notifiers\<close>, \<open>_detachNotifiers\<close> and \<open>_runningEvents\<close>;
  \<open>_subs\<close> keeps its keys in insertion order because \<open>_removeSubscribers\<close> iterates
  over them. \<open>defaultEventObj\<close> lists the property names that \<open>key in e\<close> finds through
  the prototype chain of a fresh event object (\<open>halt\<close>, \<open>preventDefault\<close>,
  \<open>preventDefaultContinue\<close> and whatever \<open>Object.prototype\<close> carries).
  \<open>getterResult\<close> is what each getter function returns when it is called now.
  \<open>detachedFlag\<close> holds the handlers whose \<open>_detached\<close> property is set,
  \<open>handlers\<close> the handler objects of \<open>onceBefore\<close>/\<open>onceAfter\<close>, and \<open>timers\<close>
  the pending \<open>setTimeout(function() {handler.detach();}, 0)\<close> tasks.
\<close>

text \<open>
  The names that every object has through \<open>Object.prototype\<close>: those of the language and
  \<open>itsa_each\<close>, the one method of \<open>itsa-jsext/lib/object\<close> that the source uses. A
  library that puts more names there makes the list longer; the theorems are about any
  list.
\<close>

definition Object_prototype :: "string list" where
  "Object_prototype =
     [''constructor'', ''toString'', ''toLocaleString'', ''valueOf'', ''hasOwnProperty'',
      ''isPrototypeOf'', ''propertyIsEnumerable'', ''__proto__'', ''__defineGetter__'',
      ''__defineSetter__'', ''__lookupGetter__'', ''__lookupSetter__'', ''itsa_each'']"

definition console :: "log_entry \<Rightarrow> state \<Rightarrow> state" where
  "console x st = st\<lparr>trace := trace st @ [x]\<rparr>"

definition init_state :: state where
  "init_state = \<lparr>subs = [], ce = Map.empty, notifiers = Map.empty, detachNotifiers = Map.empty,
     runningEvents = {},
     defaultEventObj = [''halt'', ''preventDefault'', ''preventDefaultContinue''] @ Object_prototype,
     getterResult = (\<lambda>g. JUndefined), detachedFlag = {}, handlers = Map.empty,
     nextHandler = 0, timers = [], trace = []\<rparr>"

section \<open>Notification registry\<close>

primrec notify :: "string list \<Rightarrow> nat \<Rightarrow> jsval \<Rightarrow> jsval \<Rightarrow> state \<Rightarrow> state" where
  "notify [] callback context once st = st"
| "notify (c # cs) callback context once st =
     notify cs callback context once
       (st\<lparr>notifiers := (notifiers st)(c \<mapsto> \<lparr>n_cb = callback, n_o = context, n_r = once\<rparr>)\<rparr>)"

primrec notifyDetach :: "string list \<Rightarrow> nat \<Rightarrow> jsval \<Rightarrow> jsval \<Rightarrow> state \<Rightarrow> state" where
  "notifyDetach [] callback context once st = st"
| "notifyDetach (c # cs) callback context once st =
     notifyDetach cs callback context once
       (st\<lparr>detachNotifiers :=
            (detachNotifiers st)(c \<mapsto> \<lparr>n_cb = callback, n_o = context, n_r = once\<rparr>)\<rparr>)"

definition unNotify :: "string \<Rightarrow> state \<Rightarrow> state" where
  "unNotify customEvent st = st\<lparr>notifiers := (notifiers st)(customEvent := None)\<rparr>"

definition unNotifyDetach :: "string \<Rightarrow> state \<Rightarrow> state" where
  "unNotifyDetach customEvent st =
     st\<lparr>detachNotifiers := (detachNotifiers st)(customEvent := None)\<rparr>"

section \<open>Subscription registry\<close>

datatype sub_result = Subscribed sub_handle | NoHandle | SubscribeThrew

text \<open>
  One of the four notifier checks of \<open>_addSubscriber\<close>: look the notifier up under
  \<open>key\<close>, call it with \<open>(customEvent, item)\<close>, and when its \<open>r\<close> is truthy run
  \<open>delete instance._notifiers[customEvent]\<close>, as the source does in all four places.
\<close>

definition notifier_check :: "string \<Rightarrow> string \<Rightarrow> subscriber \<Rightarrow> state \<Rightarrow> state" where
  "notifier_check key customEvent item st =
     (case notifiers st key of
        None \<Rightarrow> st
      | Some n \<Rightarrow>
          (let st1 = console (Notified key (n_cb n) (n_o n) customEvent item) st
           in if truthy (n_r n)
              then st1\<lparr>notifiers := (notifiers st1)(customEvent := None)\<rparr>
              else st1))"

definition run_notifiers :: "string \<Rightarrow> subscriber \<Rightarrow> state \<Rightarrow> state" where
  "run_notifiers customEvent item st =
     (let st1 = notifier_check customEvent customEvent item st;
          customEventWildcardEventName = replace_eventname customEvent;
          st2 = (if customEventWildcardEventName \<noteq> customEvent
                 then notifier_check customEventWildcardEventName customEvent item st1 else st1);
          customEventWildcardEmitterName = replace_emittername customEvent;
          st3 = (if customEventWildcardEmitterName \<noteq> customEvent
                 then notifier_check customEventWildcardEmitterName customEvent item st2 else st2)
      in if WILDCARD_WILDCARD \<noteq> customEvent
         then notifier_check WILDCARD_WILDCARD customEvent item st3 else st3)"

definition ensure_bucket :: "bool \<Rightarrow> string \<Rightarrow> state \<Rightarrow> state" where
  "ensure_bucket bef customEvent st =
     (let bk = (case map_of (subs st) customEvent of
                  None \<Rightarrow> \<lparr>bucket_b = None, bucket_a = None\<rparr>
                | Some bk0 \<Rightarrow> bk0);
          bk1 = (if bef
                 then (case bucket_b bk of None \<Rightarrow> bk\<lparr>bucket_b := Some []\<rparr> | Some l \<Rightarrow> bk)
                 else (case bucket_a bk of None \<Rightarrow> bk\<lparr>bucket_a := Some []\<rparr> | Some l \<Rightarrow> bk))
      in st\<lparr>subs := AList.update customEvent bk1 (subs st)\<rparr>)"

definition insert_item :: "bool \<Rightarrow> string \<Rightarrow> bool \<Rightarrow> subscriber \<Rightarrow> state \<Rightarrow> state" where
  "insert_item bef customEvent prepend item st =
     (case map_of (subs st) customEvent of
        None \<Rightarrow> st
      | Some bk \<Rightarrow>
          (let ins = (\<lambda>l. if prepend then item # l else l @ [item]);
               bk1 = (if bef then bk\<lparr>bucket_b := map_option ins (bucket_b bk)\<rparr>
                      else bk\<lparr>bucket_a := map_option ins (bucket_a bk)\<rparr>)
           in st\<lparr>subs := AList.update customEvent bk1 (subs st)\<rparr>))"

definition register_item ::
  "obj option \<Rightarrow> bool \<Rightarrow> string option \<times> string \<Rightarrow> string \<Rightarrow> subscriber \<Rightarrow> bool \<Rightarrow> state
   \<Rightarrow> sub_result \<times> state" where
  "register_item listener bef extract customEvent item prepend st =
     (let st1 = ensure_bucket bef customEvent st;
          st2 = (if fst extract \<noteq> Some ''*'' \<and> snd extract \<noteq> ''*''
                 then run_notifiers customEvent item st1 else st1);
          st3 = insert_item bef customEvent prepend item st2
      in (Subscribed \<lparr>h_listener = listener, h_before = bef, h_customEvent = customEvent,
                      h_callback = sub_cb item\<rparr>, st3))"

text \<open>
  \<open>_addSubscriber\<close>. Reading \<open>listener._emitterName\<close> of an absent listener for a
  \<open>this:\<close> topic throws a TypeError before anything is changed.
\<close>

definition addSubscriber ::
  "obj option \<Rightarrow> bool \<Rightarrow> string \<Rightarrow> callback \<Rightarrow> fn option \<Rightarrow> bool \<Rightarrow> state
   \<Rightarrow> sub_result \<times> state" where
  "addSubscriber listener bef customEvent callback filter0 prepend st =
     (case match_wildcard customEvent of
        None \<Rightarrow> (NoHandle, console (ConsoleError (SubscribeNoMatch customEvent)) st)
      | Some extract \<Rightarrow>
          (let item = \<lparr>sub_o = (case listener of None \<Rightarrow> Event_instance | Some l \<Rightarrow> l),
                       sub_cb = callback, sub_f = filter0, sub_s = False\<rparr>;
               customEvent1 = (if fst extract = None then ''UI:'' @ customEvent else customEvent)
           in if fst extract = Some ''this''
              then (case listener of
                      None \<Rightarrow> (SubscribeThrew, st)
                    | Some l \<Rightarrow>
                        (case emitterName l of
                           None \<Rightarrow> (NoHandle, console (ConsoleError SubscribeThisNoEmitter) st)
                         | Some n \<Rightarrow>
                             if n \<noteq> []
                             then register_item listener bef extract (n @ '':'' @ snd extract)
                                    (item\<lparr>sub_s := True\<rparr>) prepend st
                             else (NoHandle, console (ConsoleError SubscribeThisNoEmitter) st)))
              else register_item listener bef extract customEvent1 item prepend st))"

text \<open>
  The removal loop of \<open>_removeSubscriber\<close>: \<open>hashtable.splice(i--, 1)\<close> for every
  record whose owner is \<open>listener || instance\<close> and, when a callback is given, whose
  callback is that function.
\<close>

definition matches_sub :: "obj option \<Rightarrow> callback option \<Rightarrow> subscriber \<Rightarrow> bool" where
  "matches_sub listener callback sb =
     (sub_o sb = (case listener of None \<Rightarrow> Event_instance | Some l \<Rightarrow> l)
      \<and> (case callback of None \<Rightarrow> True | Some c \<Rightarrow> sub_cb sb = c))"

primrec splice_loop :: "obj option \<Rightarrow> callback option \<Rightarrow> subscriber list \<Rightarrow> subscriber list" where
  "splice_loop listener callback [] = []"
| "splice_loop listener callback (sb # rest) =
     (if matches_sub listener callback sb
      then splice_loop listener callback rest
      else sb # splice_loop listener callback rest)"

definition used :: "subscriber list option \<Rightarrow> bool" where
  "used l = (case l of None \<Rightarrow> False | Some xs \<Rightarrow> length xs > 0)"

definition detach_notifier_check :: "string \<Rightarrow> string \<Rightarrow> state \<Rightarrow> state" where
  "detach_notifier_check key customEvent st =
     (case detachNotifiers st key of
        None \<Rightarrow> st
      | Some n \<Rightarrow>
          (let st1 = console (DetachNotified key (n_cb n) (n_o n) customEvent) st
           in if truthy (n_r n)
              then st1\<lparr>detachNotifiers := (detachNotifiers st1)(customEvent := None)\<rparr>
              else st1))"

definition remove_entry ::
  "obj option \<Rightarrow> bool \<Rightarrow> string \<Rightarrow> callback option \<Rightarrow> (string \<times> bucket) list
   \<Rightarrow> (string \<times> bucket) list" where
  "remove_entry listener bef customEvent callback allSubscribers =
     (case map_of allSubscribers customEvent of
        None \<Rightarrow> allSubscribers
      | Some eventSubscribers \<Rightarrow>
          (let bk = (if bef
                     then eventSubscribers\<lparr>bucket_b :=
                            map_option (splice_loop listener callback) (bucket_b eventSubscribers)\<rparr>
                     else eventSubscribers\<lparr>bucket_a :=
                            map_option (splice_loop listener callback) (bucket_a eventSubscribers)\<rparr>);
               beforeUsed = used (bucket_b bk);
               afterUsed = used (bucket_a bk)
           in if \<not> beforeUsed \<and> \<not> afterUsed
              then AList.delete customEvent allSubscribers
              else AList.update customEvent bk allSubscribers))"

definition removeSubscriber ::
  "obj option \<Rightarrow> bool \<Rightarrow> string \<Rightarrow> callback option \<Rightarrow> state \<Rightarrow> state" where
  "removeSubscriber listener bef customEvent callback st =
     (let st1 = st\<lparr>subs := remove_entry listener bef customEvent callback (subs st)\<rparr>
      in case match_customevent customEvent of
           None \<Rightarrow> st1
         | Some extract \<Rightarrow>
             if fst extract \<noteq> ''*'' \<and> snd extract \<noteq> ''*''
             then (let st2 = detach_notifier_check customEvent customEvent st1;
                       customEventWildcardEventName = replace_eventname customEvent
                   in if customEventWildcardEventName \<noteq> customEvent
                      then detach_notifier_check customEventWildcardEventName customEvent st2
                      else st2)
             else st1)"

datatype outcome = Returned | Threw

text \<open>
  The wildcard branch of \<open>_removeSubscribers\<close> visits the keys that \<open>_subs\<close> has when
  the iteration starts. A key that does not match \<open>REGEXP_WILDCARD_CUSTOMEVENT\<close> makes
  \<open>localExtract\<close> null, and reading \<open>localExtract[1]\<close> or \<open>localExtract[2]\<close> throws.
\<close>

primrec remove_each :: "obj option \<Rightarrow> string \<Rightarrow> string \<Rightarrow> string list \<Rightarrow> state \<Rightarrow> outcome \<times> state" where
  "remove_each listener emitterName0 eventName [] st = (Returned, st)"
| "remove_each listener emitterName0 eventName (key # keys) st =
     (case match_wildcard key of
        None \<Rightarrow>
          (if emitterName0 = ''*'' \<and> eventName = ''*''
           then remove_each listener emitterName0 eventName keys
                  (removeSubscriber listener False key None
                     (removeSubscriber listener True key None st))
           else (Threw, st))
      | Some localExtract \<Rightarrow>
          (let emitterMatch = (emitterName0 = ''*'' \<or> Some emitterName0 = fst localExtract);
               eventMatch = (eventName = ''*'' \<or> eventName = snd localExtract)
           in if emitterMatch \<and> eventMatch
              then remove_each listener emitterName0 eventName keys
                     (removeSubscriber listener False key None
                        (removeSubscriber listener True key None st))
              else remove_each listener emitterName0 eventName keys st))"

definition removeSubscribers :: "obj option \<Rightarrow> string \<Rightarrow> state \<Rightarrow> outcome \<times> state" where
  "removeSubscribers listener customEvent st =
     (case match_wildcard customEvent of
        None \<Rightarrow> (Returned, console (ConsoleError (RemoveNoMatch customEvent)) st)
      | Some extract \<Rightarrow>
          (let emitterName0 = (case fst extract of None \<Rightarrow> ''UI'' | Some n \<Rightarrow> n);
               eventName = snd extract
           in if emitterName0 \<noteq> ''*'' \<and> eventName \<noteq> ''*''
              then (Returned, removeSubscriber listener False customEvent None
                                (removeSubscriber listener True customEvent None st))
              else remove_each listener emitterName0 eventName (map fst (subs st)) st))"

text \<open>
  \<open>detach(listener, customEvent)\<close>; the one-argument call \<open>detach(customEvent)\<close> is
  \<open>detach None customEvent\<close>.
\<close>

definition detach :: "obj option \<Rightarrow> string \<Rightarrow> state \<Rightarrow> outcome \<times> state" where
  "detach listener customEvent st = removeSubscribers listener customEvent st"

definition detachAll :: "obj option \<Rightarrow> state \<Rightarrow> outcome \<times> state" where
  "detachAll listener st =
     (case listener of
        Some l \<Rightarrow> removeSubscribers listener ''*:*'' st
      | None \<Rightarrow> (Returned, st\<lparr>subs := []\<rparr>))"

text \<open>The \<open>detach()\<close> method of the object that \<open>_addSubscriber\<close> returns.\<close>

definition detach_sub_handle :: "sub_handle \<Rightarrow> state \<Rightarrow> state" where
  "detach_sub_handle h st =
     removeSubscriber (h_listener h) (h_before h) (h_customEvent h) (Some (h_callback h)) st"

text \<open>
  \<open>_addMultiSubs\<close> for an array of topics collects what \<open>_addSubscriber\<close> returns,
  \<open>undefined\<close> included; the \<open>detach()\<close> of the composite handle calls
  \<open>subscriber.detach()\<close> on each element in turn and throws at an undefined one.
\<close>

primrec detach_each :: "sub_handle option list \<Rightarrow> state \<Rightarrow> outcome \<times> state" where
  "detach_each [] st = (Returned, st)"
| "detach_each (h # hs) st =
     (case h of None \<Rightarrow> (Threw, st) | Some sh \<Rightarrow> detach_each hs (detach_sub_handle sh st))"

fun detach_handle :: "handle \<Rightarrow> state \<Rightarrow> outcome \<times> state" where
  "detach_handle (Single h) st = (Returned, detach_sub_handle h st)"
| "detach_handle (Multi hs) st = detach_each hs st"

section \<open>The subscribing methods\<close>

datatype topics = One string | Many "string list"

datatype multi_result = Handle handle | Undefined | SubsThrew

primrec add_each ::
  "obj option \<Rightarrow> bool \<Rightarrow> string list \<Rightarrow> callback \<Rightarrow> fn option \<Rightarrow> bool
   \<Rightarrow> sub_handle option list \<Rightarrow> state \<Rightarrow> multi_result \<times> state" where
  "add_each listener bef [] callback filter0 prepend subscribers st =
     (Handle (Multi subscribers), st)"
| "add_each listener bef (c # cs) callback filter0 prepend subscribers st =
     (case addSubscriber listener bef c callback filter0 prepend st of
        (Subscribed h, st1) \<Rightarrow>
          add_each listener bef cs callback filter0 prepend (subscribers @ [Some h]) st1
      | (NoHandle, st1) \<Rightarrow>
          add_each listener bef cs callback filter0 prepend (subscribers @ [None]) st1
      | (SubscribeThrew, st1) \<Rightarrow> (SubsThrew, st1))"

text \<open>
  \<open>_addMultiSubs\<close>, called with a listener that is an object or absent and a filter that
  is a function or absent (the source also accepts the filter or the prepend flag in the
  listener's position and shifts the arguments).
\<close>

definition addMultiSubs ::
  "bool \<Rightarrow> topics \<Rightarrow> callback \<Rightarrow> obj option \<Rightarrow> fn option \<Rightarrow> bool \<Rightarrow> state
   \<Rightarrow> multi_result \<times> state" where
  "addMultiSubs bef customEvent callback listener filter0 prepend st =
     (case customEvent of
        One c \<Rightarrow>
          (case addSubscriber listener bef c callback filter0 prepend st of
             (Subscribed h, st1) \<Rightarrow> (Handle (Single h), st1)
           | (NoHandle, st1) \<Rightarrow> (Undefined, st1)
           | (SubscribeThrew, st1) \<Rightarrow> (SubsThrew, st1))
      | Many cs \<Rightarrow> add_each listener bef cs callback filter0 prepend [] st)"

definition Event_after ::
  "topics \<Rightarrow> fn \<Rightarrow> obj option \<Rightarrow> fn option \<Rightarrow> bool \<Rightarrow> state \<Rightarrow> multi_result \<times> state" where
  "Event_after customEvent callback context filter0 prepend st =
     addMultiSubs False customEvent (Plain callback) context filter0 prepend st"

definition Event_before ::
  "topics \<Rightarrow> fn \<Rightarrow> obj option \<Rightarrow> fn option \<Rightarrow> bool \<Rightarrow> state \<Rightarrow> multi_result \<times> state" where
  "Event_before customEvent callback context filter0 prepend st =
     addMultiSubs True customEvent (Plain callback) context filter0 prepend st"

text \<open>
  \<open>onceAfter\<close> and \<open>onceBefore\<close> create a fresh \<open>wrapperFn\<close>, subscribe it, and keep
  what \<open>_addMultiSubs\<close> returns in the variable \<open>handler\<close> the closure reads.
\<close>

definition once ::
  "bool \<Rightarrow> topics \<Rightarrow> fn \<Rightarrow> obj option \<Rightarrow> fn option \<Rightarrow> bool \<Rightarrow> state \<Rightarrow> multi_result \<times> state" where
  "once bef customEvent callback context filter0 prepend st =
     (let h = nextHandler st;
          r = addMultiSubs bef customEvent (Wrapper h callback) context filter0 prepend
                (st\<lparr>nextHandler := Suc h\<rparr>)
      in case fst r of
           Handle handler \<Rightarrow> (fst r, (snd r)\<lparr>handlers := (handlers (snd r))(h \<mapsto> handler)\<rparr>)
         | Undefined \<Rightarrow> r
         | SubsThrew \<Rightarrow> r)"

definition onceAfter ::
  "topics \<Rightarrow> fn \<Rightarrow> obj option \<Rightarrow> fn option \<Rightarrow> bool \<Rightarrow> state \<Rightarrow> multi_result \<times> state" where
  "onceAfter customEvent callback context filter0 prepend st =
     once False customEvent callback context filter0 prepend st"

definition onceBefore ::
  "topics \<Rightarrow> fn \<Rightarrow> obj option \<Rightarrow> fn option \<Rightarrow> bool \<Rightarrow> state \<Rightarrow> multi_result \<times> state" where
  "onceBefore customEvent callback context filter0 prepend st =
     once True customEvent callback context filter0 prepend st"

text \<open>
  One turn of the event loop: every pending \<open>function() {handler.detach();}\<close> task runs,
  each as a task of its own.
\<close>

definition run_timer :: "nat \<Rightarrow> state \<Rightarrow> state" where
  "run_timer h st =
     (case handlers st h of None \<Rightarrow> st | Some handler \<Rightarrow> snd (detach_handle handler st))"

definition run_timers :: "state \<Rightarrow> state" where
  "run_timers st = fold run_timer (timers st) (st\<lparr>timers := []\<rparr>)"

section \<open>The event object\<close>

record status =
  s_ok :: "bool option"
  s_halted :: jsval
  s_defaultPrevented :: jsval
  s_defaultPreventedContinue :: jsval
  s_preventedFn :: bool
  s_defaultFn :: bool
  s_unSilencable :: bool

text \<open>
  The event object: \<open>e.target\<close>, \<open>e.type\<close>, \<open>e.emitter\<close>, \<open>e.status\<close>, and in
  \<open>e_props\<close> every other own property in creation order (\<open>_unPreventable\<close>,
  \<open>_unHaltable\<close>, the merged payload, \<open>silent\<close>, \<open>returnValue\<close>). A status field
  that is \<open>JUndefined\<close>, \<open>None\<close> or \<open>False\<close> is an absent property of \<open>e.status\<close>.
  The prototype chain is taken to hold none of the names the dispatcher itself reads or
  assigns (\<open>silent\<close>, \<open>sourceTarget\<close>, \<open>_noResetSourceTarget\<close>, \<open>returnValue\<close>).
\<close>

record event =
  e_target :: jsval
  e_type :: string
  e_emitter :: string
  e_status :: status
  e_props :: "(string \<times> descriptor) list"

definition read_slot :: "(nat \<Rightarrow> jsval) \<Rightarrow> descriptor \<Rightarrow> jsval" where
  "read_slot gr d = (case d of Data v w en cf \<Rightarrow> v | Accessor g en cf \<Rightarrow> gr g)"

definition get_prop :: "(nat \<Rightarrow> jsval) \<Rightarrow> event \<Rightarrow> string \<Rightarrow> jsval" where
  "get_prop gr e key =
     (case map_of (e_props e) key of None \<Rightarrow> JUndefined | Some d \<Rightarrow> read_slot gr d)"

text \<open>
  The assignment \<open>e[key] = v\<close> for a name outside the four fixed fields: a new own
  property is writable, enumerable and configurable; an existing writable data property
  keeps its flags. The dispatcher never creates another kind of slot on an event object.
\<close>

definition assign :: "event \<Rightarrow> string \<Rightarrow> jsval \<Rightarrow> event" where
  "assign e key v =
     (case map_of (e_props e) key of
        None \<Rightarrow> e\<lparr>e_props := e_props e @ [(key, Data v True True True)]\<rparr>
      | Some (Data v0 w en cf) \<Rightarrow>
          if w then e\<lparr>e_props := AList.update key (Data v w en cf) (e_props e)\<rparr> else e
      | Some (Accessor g en cf) \<Rightarrow> e)"

definition defineProperty :: "event \<Rightarrow> string \<Rightarrow> descriptor \<Rightarrow> event" where
  "defineProperty e key d = e\<lparr>e_props := AList.update key d (e_props e)\<rparr>"

text \<open>\<open>key in e\<close>.\<close>

definition has_property :: "string list \<Rightarrow> event \<Rightarrow> string \<Rightarrow> bool" where
  "has_property proto e key =
     (key \<in> set [''target'', ''type'', ''emitter'', ''status'']
      \<or> key \<in> set (map fst (e_props e)) \<or> key \<in> set proto)"

definition reason_or_true :: "jsval \<Rightarrow> jsval" where
  "reason_or_true reason = (if truthy reason then reason else JBool True)"

text \<open>The three methods that \<open>_setEventObjProperty\<close> installs on \<open>_defaultEventObj\<close>.\<close>

definition halt :: "(nat \<Rightarrow> jsval) \<Rightarrow> jsval \<Rightarrow> event \<Rightarrow> event" where
  "halt gr reason e =
     (if s_ok (e_status e) = Some True \<or> truthy (get_prop gr e ''_unHaltable'') then e
      else e\<lparr>e_status := (e_status e)\<lparr>s_halted := reason_or_true reason\<rparr>\<rparr>)"

definition preventDefault :: "(nat \<Rightarrow> jsval) \<Rightarrow> jsval \<Rightarrow> event \<Rightarrow> event" where
  "preventDefault gr reason e =
     (if s_ok (e_status e) = Some True \<or> truthy (get_prop gr e ''_unPreventable'') then e
      else e\<lparr>e_status := (e_status e)\<lparr>s_defaultPrevented := reason_or_true reason\<rparr>\<rparr>)"

definition preventDefaultContinue :: "(nat \<Rightarrow> jsval) \<Rightarrow> jsval \<Rightarrow> event \<Rightarrow> event" where
  "preventDefaultContinue gr reason e =
     (if s_ok (e_status e) = Some True \<or> truthy (get_prop gr e ''_unPreventable'') then e
      else e\<lparr>e_status := (e_status e)\<lparr>s_defaultPreventedContinue := reason_or_true reason\<rparr>\<rparr>)"

section \<open>Merging the payload\<close>

definition is_enumerable :: "descriptor \<Rightarrow> bool" where
  "is_enumerable d = (case d of Data v w en cf \<Rightarrow> en | Accessor g en cf \<Rightarrow> en)"

text \<open>
  The order in which the properties of one object are visited: the array indices (the
  decimal numerals below \<open>4294967295\<close>, without leading zeros) in ascending order, then
  the other names in the order of their creation. Two numerals of the same length compare
  digit by digit.
\<close>

definition digit_rank :: "char \<Rightarrow> nat" where
  "digit_rank c = length (takeWhile (\<lambda>d. d \<noteq> c) ''0123456789'')"

fun numeral_less :: "string \<Rightarrow> string \<Rightarrow> bool" where
  "numeral_less (x # xs) (y # ys) =
     (digit_rank x < digit_rank y \<or> (x = y \<and> numeral_less xs ys))"
| "numeral_less xs ys = False"

definition index_less :: "string \<Rightarrow> string \<Rightarrow> bool" where
  "index_less a b = (length a < length b \<or> (length a = length b \<and> numeral_less a b))"

definition is_index :: "string \<Rightarrow> bool" where
  "is_index s =
     (s \<noteq> [] \<and> list_all (\<lambda>c. c \<in> set ''0123456789'') s
      \<and> (s = ''0'' \<or> hd s \<noteq> CHR ''0'')
      \<and> index_less s ''4294967295'')"

primrec insert_index ::
  "string \<times> descriptor \<Rightarrow> (string \<times> descriptor) list \<Rightarrow> (string \<times> descriptor) list" where
  "insert_index kd [] = [kd]"
| "insert_index kd (x # xs) =
     (if index_less (fst kd) (fst x) then kd # x # xs else x # insert_index kd xs)"

definition key_order :: "(string \<times> descriptor) list \<Rightarrow> (string \<times> descriptor) list" where
  "key_order props =
     foldr insert_index (filter (\<lambda>kd. is_index (fst kd)) props) []
     @ filter (\<lambda>kd. \<not> is_index (fst kd)) props"

text \<open>
  \<open>for (key in payload)\<close>: the enumerable own properties, then the enumerable inherited
  ones that no own property shadows.
\<close>

definition for_in :: "payload \<Rightarrow> string list" where
  "for_in p =
     map fst (filter (\<lambda>kd. is_enumerable (snd kd)) (key_order (own p)))
     @ map fst (filter (\<lambda>kd. is_enumerable (snd kd) \<and> fst kd \<notin> set (map fst (own p)))
                  (key_order (inherited p)))"

definition getOwnPropertyDescriptor :: "payload \<Rightarrow> string \<Rightarrow> descriptor option" where
  "getOwnPropertyDescriptor p key = map_of (own p) key"

text \<open>\<open>payload[key]\<close>: a getter is called and its present result is the value.\<close>

definition payload_get :: "(nat \<Rightarrow> jsval) \<Rightarrow> payload \<Rightarrow> string \<Rightarrow> jsval" where
  "payload_get gr p key =
     (case map_of (own p) key of
        Some d \<Rightarrow> read_slot gr d
      | None \<Rightarrow> (case map_of (inherited p) key of Some d \<Rightarrow> read_slot gr d | None \<Rightarrow> JUndefined))"

definition merge_key :: "(nat \<Rightarrow> jsval) \<Rightarrow> string list \<Rightarrow> payload \<Rightarrow> string \<Rightarrow> event \<Rightarrow> event" where
  "merge_key gr proto p key e =
     (if \<not> has_property proto e key
      then (case getOwnPropertyDescriptor p key of
              None \<Rightarrow> assign e key (payload_get gr p key)
            | Some (Accessor g en cf) \<Rightarrow> assign e key (payload_get gr p key)
            | Some (Data v w en cf) \<Rightarrow>
                if \<not> w then assign e key (payload_get gr p key)
                else defineProperty e key (Data v w en cf))
      else e)"

primrec merge_keys :: "(nat \<Rightarrow> jsval) \<Rightarrow> string list \<Rightarrow> payload \<Rightarrow> string list \<Rightarrow> event \<Rightarrow> event" where
  "merge_keys gr proto p [] e = e"
| "merge_keys gr proto p (key # keys) e = merge_keys gr proto p keys (merge_key gr proto p key e)"

definition merge_payload :: "(nat \<Rightarrow> jsval) \<Rightarrow> string list \<Rightarrow> payload option \<Rightarrow> event \<Rightarrow> event" where
  "merge_payload gr proto payload0 e =
     (case payload0 of None \<Rightarrow> e | Some p \<Rightarrow> merge_keys gr proto p (for_in p) e)"

definition flag :: "bool \<Rightarrow> jsval" where
  "flag x = (if x then JBool True else JUndefined)"

definition empty_status :: status where
  "empty_status = \<lparr>s_ok = None, s_halted = JUndefined, s_defaultPrevented = JUndefined,
     s_defaultPreventedContinue = JUndefined, s_preventedFn = False, s_defaultFn = False,
     s_unSilencable = False\<rparr>"

text \<open>The fresh event object of \<open>_emit\<close>, before the payload is merged.\<close>

definition new_event :: "obj \<Rightarrow> string \<Rightarrow> string \<Rightarrow> ce_definition option \<Rightarrow> event" where
  "new_event emitter0 eventName emitterName0 customEventDefinition =
     \<lparr>e_target = JObj emitter0, e_type = eventName, e_emitter = emitterName0,
      e_status = (case customEventDefinition of
                    None \<Rightarrow> empty_status
                  | Some d \<Rightarrow> empty_status\<lparr>s_unSilencable := unSilencable d\<rparr>),
      e_props = (case customEventDefinition of
                   None \<Rightarrow> []
                 | Some d \<Rightarrow> [(''_unPreventable'', Data (flag (unPreventable d)) True True True),
                              (''_unHaltable'', Data (flag (unHaltable d)) True True True)])\<rparr>"

text \<open>
  \<open>if (e.status.unSilencable && e.silent) {console.warn(...); e.silent = false;}\<close>, which
  \<open>_emit\<close> runs after the merge and \<open>_invokeSubs\<close> after every subscriber.
\<close>

definition event_topic :: "event \<Rightarrow> string" where
  "event_topic e = e_emitter e @ '':'' @ e_type e"

definition unsilence :: "event \<Rightarrow> state \<Rightarrow> event \<times> state" where
  "unsilence e st =
     (if s_unSilencable (e_status e) \<and> truthy (get_prop (getterResult st) e ''silent'')
      then (assign e ''silent'' (JBool False),
            console (ConsoleWarn (CannotSilence (event_topic e))) st)
      else (e, st))"

definition build_event ::
  "obj \<Rightarrow> string \<Rightarrow> string \<Rightarrow> ce_definition option \<Rightarrow> payload option \<Rightarrow> state \<Rightarrow> event \<times> state" where
  "build_event emitter0 eventName emitterName0 customEventDefinition payload0 st =
     unsilence
       (merge_payload (getterResult st) (defaultEventObj st) payload0
          (new_event emitter0 eventName emitterName0 customEventDefinition)) st"

section \<open>Dispatch\<close>

text \<open>
  \<open>emit\<close> as a callback can call it: emitter, topic, payload and the state, giving the
  returned event object (\<open>None\<close>: \<open>undefined\<close>) and the new state. The outer \<open>None\<close> says
  that emissions nested deeper than the bound of \<open>nested_emit\<close> below.
\<close>

type_synonym emitfn = "obj \<Rightarrow> string \<Rightarrow> payload option \<Rightarrow> state \<Rightarrow> (event option \<times> state) option"

text \<open>What a call of one of the four event-object operations does to the event object.\<close>

definition apply_action :: "(nat \<Rightarrow> jsval) \<Rightarrow> action \<Rightarrow> event \<Rightarrow> event" where
  "apply_action gr x e =
     (case x of
        Halt reason \<Rightarrow> halt gr reason e
      | PreventDefault reason \<Rightarrow> preventDefault gr reason e
      | PreventDefaultContinue reason \<Rightarrow> preventDefaultContinue gr reason e
      | SetSilent v \<Rightarrow> assign e ''silent'' v
      | Emit emitter0 customEvent payload0 \<Rightarrow> e)"

definition run_action :: "emitfn \<Rightarrow> action \<Rightarrow> event \<Rightarrow> state \<Rightarrow> (event \<times> state) option" where
  "run_action nested x e st =
     (case x of
        Emit emitter0 customEvent payload0 \<Rightarrow>
          (case nested emitter0 customEvent payload0 st of
             None \<Rightarrow> None
           | Some r \<Rightarrow> Some (e, snd r))
      | _ \<Rightarrow> Some (apply_action (getterResult st) x e, st))"

text \<open>Running the script of a function that was called in stage \<open>sg\<close> of topic \<open>t\<close>.\<close>

primrec run_actions ::
  "emitfn \<Rightarrow> string \<Rightarrow> stage \<Rightarrow> action list \<Rightarrow> event \<Rightarrow> state \<Rightarrow> (event \<times> state) option" where
  "run_actions nested t sg [] e st = Some (e, st)"
| "run_actions nested t sg (x # xs) e st =
     (case run_action nested x e (console (Api t sg x) st) of
        None \<Rightarrow> None
      | Some r \<Rightarrow> run_actions nested t sg xs (fst r) (snd r))"

text \<open>
  \<open>subscriber.cb.call(subscriber.o, e)\<close>. For the \<open>wrapperFn\<close> of handler \<open>h\<close>:
  \<open>handler._detached || callback.call(this, e); handler._detached = true;
  setTimeout(function() {handler.detach();}, 0);\<close>
\<close>

definition call_callback ::
  "emitfn \<Rightarrow> string \<Rightarrow> stage \<Rightarrow> callback \<Rightarrow> event \<Rightarrow> state \<Rightarrow> (event \<times> state) option" where
  "call_callback nested t sg c e st =
     (case c of
        Plain fn0 \<Rightarrow> run_actions nested t sg (body fn0) e st
      | Wrapper h fn0 \<Rightarrow>
          (case (if h \<in> detachedFlag st then Some (e, st)
                 else run_actions nested t sg (body fn0) e (console (UserCallback t sg h fn0) st)) of
             None \<Rightarrow> None
           | Some r \<Rightarrow>
               Some (fst r, (snd r)\<lparr>detachedFlag := insert h (detachedFlag (snd r)),
                                    timers := timers (snd r) @ [h]\<rparr>)))"

text \<open>\<open>!checkFilter || !subscriber.f || subscriber.f.call(subscriber.o, e)\<close>.\<close>

definition passes_filter ::
  "emitfn \<Rightarrow> string \<Rightarrow> stage \<Rightarrow> bool \<Rightarrow> subscriber \<Rightarrow> event \<Rightarrow> state \<Rightarrow> (bool \<times> event \<times> state) option" where
  "passes_filter nested t sg checkFilter sb e st =
     (if \<not> checkFilter then Some (True, e, st)
      else (case sub_f sb of
              None \<Rightarrow> Some (True, e, st)
            | Some ff \<Rightarrow>
                (case run_actions nested t sg (body ff) e (console (FilterCalled t sg sb) st) of
                   None \<Rightarrow> None
                 | Some r \<Rightarrow> Some (truthy (ret ff), fst r, snd r))))"

text \<open>The body of the function that \<open>_invokeSubs\<close> passes to \<open>subs.some\<close>, without the last line.\<close>

definition invoke_one ::
  "emitfn \<Rightarrow> string \<Rightarrow> stage \<Rightarrow> bool \<Rightarrow> subscriber \<Rightarrow> event \<Rightarrow> state \<Rightarrow> (event \<times> state) option" where
  "invoke_one nested t sg checkFilter sb e st =
     (let passesThis = (\<not> sub_s sb \<or> JObj (sub_o sb) = e_target e)
      in case passes_filter nested t sg checkFilter sb e st of
           None \<Rightarrow> None
         | Some pf \<Rightarrow>
             (case (if passesThis \<and> fst pf
                    then call_callback nested t sg (sub_cb sb) (fst (snd pf))
                           (console (Invoked t sg sb) (snd (snd pf)))
                    else Some (snd pf)) of
                None \<Rightarrow> None
              | Some r \<Rightarrow> Some (unsilence (fst r) (snd r))))"

definition stage_of :: "bool \<Rightarrow> stage" where
  "stage_of bef = (if bef then Before else After)"

text \<open>
  \<open>subs.some(...)\<close>: the iteration stops when the function returns
  \<open>e.silent || (before && e.status.halted)\<close> truthy.
\<close>

primrec some_loop ::
  "emitfn \<Rightarrow> string \<Rightarrow> bool \<Rightarrow> bool \<Rightarrow> subscriber list \<Rightarrow> event \<Rightarrow> state \<Rightarrow> (event \<times> state) option" where
  "some_loop nested t checkFilter bef [] e st = Some (e, st)"
| "some_loop nested t checkFilter bef (sb # rest) e st =
     (case invoke_one nested t (stage_of bef) checkFilter sb e st of
        None \<Rightarrow> None
      | Some r \<Rightarrow>
          if truthy (get_prop (getterResult (snd r)) (fst r) ''silent'')
             \<or> (bef \<and> truthy (s_halted (e_status (fst r))))
          then Some r
          else some_loop nested t checkFilter bef rest (fst r) (snd r))"

text \<open>\<open>_invokeSubs\<close>, called without a \<open>preProcessor\<close>.\<close>

definition invokeSubs ::
  "emitfn \<Rightarrow> string \<Rightarrow> bool \<Rightarrow> bool \<Rightarrow> bucket option \<Rightarrow> event \<Rightarrow> state \<Rightarrow> (event \<times> state) option" where
  "invokeSubs nested t checkFilter bef subscribers e st =
     (case subscribers of
        None \<Rightarrow> Some (e, st)
      | Some bk \<Rightarrow>
          if \<not> truthy (s_halted (e_status e)) \<and> \<not> truthy (get_prop (getterResult st) e ''silent'')
          then (case (if bef then bucket_b bk else bucket_a bk) of
                  None \<Rightarrow> Some (e, st)
                | Some l \<Rightarrow> some_loop nested t checkFilter bef l e st)
          else Some (e, st))"

text \<open>\<open>[subs, named_wildcard_subs, wildcard_named_subs, wildcard_wildcard_subs].forEach(invokeSubs)\<close>.\<close>

primrec forEach_invokeSubs ::
  "emitfn \<Rightarrow> string \<Rightarrow> bool \<Rightarrow> bucket option list \<Rightarrow> event \<Rightarrow> state \<Rightarrow> (event \<times> state) option" where
  "forEach_invokeSubs nested t bef [] e st = Some (e, st)"
| "forEach_invokeSubs nested t bef (x # xs) e st =
     (case invokeSubs nested t True bef x e st of
        None \<Rightarrow> None
      | Some r \<Rightarrow> forEach_invokeSubs nested t bef xs (fst r) (snd r))"

text \<open>
  One phase of subscribers: the caller's override list when there is one (without the
  filter check), else the four buckets.
\<close>

definition subscriber_phase ::
  "emitfn \<Rightarrow> string \<Rightarrow> bool \<Rightarrow> subscriber list option \<Rightarrow> bucket option list \<Rightarrow> event \<Rightarrow> state
   \<Rightarrow> (event \<times> state) option" where
  "subscriber_phase nested t bef override buckets e st =
     (case override of
        Some l \<Rightarrow>
          invokeSubs nested t False bef
            (Some (if bef then \<lparr>bucket_b = Some l, bucket_a = None\<rparr>
                   else \<lparr>bucket_b = None, bucket_a = Some l\<rparr>)) e st
      | None \<Rightarrow> forEach_invokeSubs nested t bef buckets e st)"

text \<open>
  \<open>e.status.ok = !e.status.halted && !e.status.defaultPrevented\<close>, then
  \<open>e.sourceTarget && !e._noResetSourceTarget && (e.target=e.sourceTarget)\<close>.
\<close>

definition resolve_ok :: "(nat \<Rightarrow> jsval) \<Rightarrow> event \<Rightarrow> event" where
  "resolve_ok gr e =
     (let e1 = e\<lparr>e_status := (e_status e)\<lparr>s_ok :=
                  Some (\<not> truthy (s_halted (e_status e))
                        \<and> \<not> truthy (s_defaultPrevented (e_status e)))\<rparr>\<rparr>
      in if truthy (get_prop gr e1 ''sourceTarget'')
            \<and> \<not> truthy (get_prop gr e1 ''_noResetSourceTarget'')
         then e1\<lparr>e_target := get_prop gr e1 ''sourceTarget''\<rparr>
         else e1)"

text \<open>The default or prevented function, and the assignment to \<open>e.returnValue\<close>.\<close>

definition default_phase ::
  "emitfn \<Rightarrow> string \<Rightarrow> ce_definition option \<Rightarrow> event \<Rightarrow> state \<Rightarrow> (event \<times> state) option" where
  "default_phase nested t customEventDefinition e st =
     (case customEventDefinition of
        None \<Rightarrow> Some (e, st)
      | Some d \<Rightarrow>
          if truthy (s_halted (e_status e)) then Some (e, st)
          else if truthy (s_defaultPrevented (e_status e))
                  \<or> truthy (s_defaultPreventedContinue (e_status e))
          then (case preventedFn d of
                  None \<Rightarrow> Some (assign e ''returnValue'' JUndefined, st)
                | Some pfn \<Rightarrow>
                    (case run_actions nested t Default (body pfn)
                            (e\<lparr>e_status := (e_status e)\<lparr>s_preventedFn := True\<rparr>\<rparr>)
                            (console (PreventedFnCalled t pfn) st) of
                       None \<Rightarrow> None
                     | Some r \<Rightarrow> Some (assign (fst r) ''returnValue'' (ret pfn), snd r)))
          else (case defaultFn d of
                  None \<Rightarrow> Some (assign e ''returnValue'' JUndefined, st)
                | Some dfn \<Rightarrow>
                    (case run_actions nested t Default (body dfn)
                            (e\<lparr>e_status := (e_status e)\<lparr>s_defaultFn := True\<rparr>\<rparr>)
                            (console (DefaultFnCalled t dfn) st) of
                       None \<Rightarrow> None
                     | Some r \<Rightarrow> Some (assign (fst r) ''returnValue'' (ret dfn), snd r))))"

definition after_phase ::
  "emitfn \<Rightarrow> string \<Rightarrow> subscriber list option \<Rightarrow> bucket option list \<Rightarrow> event \<Rightarrow> state
   \<Rightarrow> (event \<times> state) option" where
  "after_phase nested t afterSubscribers buckets e st =
     (if s_ok (e_status e) = Some True
      then subscriber_phase nested t False afterSubscribers buckets e st
      else Some (e, st))"

text \<open>
  The part of \<open>_emit\<close> between \<open>instance._runningEvents[customEvent] = true\<close> and
  \<open>delete instance._runningEvents[customEvent]\<close>. The four buckets are looked up once,
  at the start; no callback of this model changes \<open>_subs\<close> while the dispatch runs.
\<close>

definition resolve_buckets ::
  "(string \<times> bucket) list \<Rightarrow> string \<Rightarrow> string \<times> string \<Rightarrow> bucket option list" where
  "resolve_buckets allSubscribers customEvent extract =
     (let emitterName0 = fst extract;
          eventName = snd extract;
          subs0 = map_of allSubscribers customEvent;
          wildcard_named_subs = map_of allSubscribers (''*:'' @ eventName);
          named_wildcard_subs = map_of allSubscribers (emitterName0 @ '':*'');
          wildcard_wildcard_subs = map_of allSubscribers ''*:*''
      in [subs0, named_wildcard_subs, wildcard_named_subs, wildcard_wildcard_subs])"

definition dispatch ::
  "emitfn \<Rightarrow> obj \<Rightarrow> string \<Rightarrow> string \<times> string \<Rightarrow> payload option
   \<Rightarrow> subscriber list option \<Rightarrow> subscriber list option \<Rightarrow> state \<Rightarrow> (event \<times> state) option" where
  "dispatch nested emitter0 customEvent extract payload0 beforeSubscribers afterSubscribers st =
     (let customEventDefinition = ce st customEvent;
          buckets = resolve_buckets (subs st) customEvent extract;
          built = build_event emitter0 (snd extract) (fst extract) customEventDefinition payload0 st
      in case subscriber_phase nested customEvent True beforeSubscribers buckets
                (fst built) (snd built) of
           None \<Rightarrow> None
         | Some r1 \<Rightarrow>
             (case default_phase nested customEvent customEventDefinition
                     (resolve_ok (getterResult (snd r1)) (fst r1)) (snd r1) of
                None \<Rightarrow> None
              | Some r2 \<Rightarrow>
                  after_phase nested customEvent afterSubscribers buckets (fst r2) (snd r2)))"

text \<open>
  \<open>(customEvent.indexOf(':') !== -1) || (customEvent = emitter._emitterName+':'+customEvent)\<close>;
  an emitter without a name gives the string \<open>undefined\<close>.
\<close>

definition qualify :: "obj \<Rightarrow> string \<Rightarrow> string" where
  "qualify emitter0 customEvent0 =
     (if has_colon customEvent0 then customEvent0
      else (case emitterName emitter0 of None \<Rightarrow> ''undefined'' | Some n \<Rightarrow> n)
           @ '':'' @ customEvent0)"

text \<open>
  \<open>_emit\<close>, called without \<open>preProcessor\<close>, \<open>keepPayload\<close> and \<open>payloadGetters\<close>
  (the public \<open>emit\<close> passes none of them), with \<open>nested\<close> for the calls of \<open>emit\<close>
  that callbacks make.
\<close>

definition emit_body ::
  "emitfn \<Rightarrow> obj \<Rightarrow> string \<Rightarrow> payload option \<Rightarrow> subscriber list option \<Rightarrow> subscriber list option
   \<Rightarrow> state \<Rightarrow> (event option \<times> state) option" where
  "emit_body nested emitter0 customEvent0 payload0 beforeSubscribers afterSubscribers st =
     (let customEvent = qualify emitter0 customEvent0
      in case match_customevent customEvent of
           None \<Rightarrow> Some (None, console (ConsoleError (EmitNoMatch customEvent)) st)
         | Some extract \<Rightarrow>
             if customEvent \<in> runningEvents st
             then Some (None, console (ConsoleWarn (EmitLoop customEvent)) st)
             else (case dispatch nested emitter0 customEvent extract payload0
                          beforeSubscribers afterSubscribers
                          (st\<lparr>runningEvents := insert customEvent (runningEvents st)\<rparr>) of
                     None \<Rightarrow> None
                   | Some r \<Rightarrow>
                       Some (Some (fst r),
                             (snd r)\<lparr>runningEvents := runningEvents (snd r) - {customEvent}\<rparr>)))"

text \<open>
  The public \<open>emit(emitter, customEvent, payload)\<close> with emissions nested at most
  \<open>n\<close> deep below it; the call \<open>emit(customEvent, payload)\<close> is the one with
  \<open>Event_instance\<close> as emitter.
\<close>

primrec nested_emit :: "nat \<Rightarrow> emitfn" where
  "nested_emit 0 = (\<lambda>emitter0 customEvent payload0 st. None)"
| "nested_emit (Suc n) =
     (\<lambda>emitter0 customEvent payload0 st.
        emit_body (nested_emit n) emitter0 customEvent payload0 None None st)"

definition emit_private ::
  "nat \<Rightarrow> obj \<Rightarrow> string \<Rightarrow> payload option \<Rightarrow> subscriber list option \<Rightarrow> subscriber list option
   \<Rightarrow> state \<Rightarrow> (event option \<times> state) option" where
  "emit_private n emitter0 customEvent payload0 beforeSubscribers afterSubscribers st =
     emit_body (nested_emit n) emitter0 customEvent payload0 beforeSubscribers afterSubscribers st"

definition emit :: "nat \<Rightarrow> obj \<Rightarrow> string \<Rightarrow> payload option \<Rightarrow> state \<Rightarrow> (event option \<times> state) option" where
  "emit n emitter0 customEvent payload0 st = emit_private n emitter0 customEvent payload0 None None st"

section \<open>Defining events\<close>

text \<open>
  \<open>defineEvent(customEvent)\<close> followed by the calls chained on the object it returns.
  The methods of that object write to \<open>newCustomEvent\<close>, which is the object in \<open>_ce\<close>
  when the topic had no definition, and else only once \<open>forceAssign\<close> has put it there.
\<close>

datatype chain_call =
    Chain_defaultFn fn
  | Chain_preventedFn fn
  | Chain_unHaltable
  | Chain_unSilencable
  | Chain_unPreventable
  | Chain_forceAssign

definition chain_set :: "chain_call \<Rightarrow> ce_definition \<Rightarrow> ce_definition" where
  "chain_set c newCustomEvent =
     (case c of
        Chain_defaultFn defFn \<Rightarrow> newCustomEvent\<lparr>defaultFn := Some defFn\<rparr>
      | Chain_preventedFn prevFn \<Rightarrow> newCustomEvent\<lparr>preventedFn := Some prevFn\<rparr>
      | Chain_unHaltable \<Rightarrow> newCustomEvent\<lparr>unHaltable := True\<rparr>
      | Chain_unSilencable \<Rightarrow> newCustomEvent\<lparr>unSilencable := True\<rparr>
      | Chain_unPreventable \<Rightarrow> newCustomEvent\<lparr>unPreventable := True\<rparr>
      | Chain_forceAssign \<Rightarrow> newCustomEvent)"

primrec run_chain :: "string \<Rightarrow> chain_call list \<Rightarrow> ce_definition \<Rightarrow> bool \<Rightarrow> state \<Rightarrow> state" where
  "run_chain customEvent [] newCustomEvent installed st = st"
| "run_chain customEvent (c # cs) newCustomEvent installed st =
     (let d = chain_set c newCustomEvent;
          inst = (installed \<or> c = Chain_forceAssign)
      in run_chain customEvent cs d inst
           (if inst then st\<lparr>ce := (ce st)(customEvent \<mapsto> d)\<rparr> else st))"

definition defineEvent :: "string \<Rightarrow> chain_call list \<Rightarrow> state \<Rightarrow> state" where
  "defineEvent customEvent chain st =
     (case match_customevent customEvent of
        None \<Rightarrow> console (ConsoleError (DefineNoMatch customEvent)) st
      | Some extract \<Rightarrow>
          (let newCustomEvent = \<lparr>preventable = True, defaultFn = None, preventedFn = None,
                                 unHaltable = False, unSilencable = False, unPreventable = False\<rparr>;
               exists = (ce st customEvent \<noteq> None)
           in run_chain customEvent chain newCustomEvent (\<not> exists)
                (if \<not> exists then st\<lparr>ce := (ce st)(customEvent \<mapsto> newCustomEvent)\<rparr> else st)))"

section \<open>Vocabulary of the properties\<close>

text \<open>The \<open>before\<close> or \<open>after\<close> sequence of a topic, empty when \<open>_subs\<close> has no such entry.\<close>

definition phase_list :: "(string \<times> bucket) list \<Rightarrow> string \<Rightarrow> bool \<Rightarrow> subscriber list" where
  "phase_list allSubscribers customEvent bef =
     (case map_of allSubscribers customEvent of
        None \<Rightarrow> []
      | Some bk \<Rightarrow> (case (if bef then bucket_b bk else bucket_a bk) of None \<Rightarrow> [] | Some l \<Rightarrow> l))"

text \<open>No entry of \<open>_subs\<close> has both sequences empty.\<close>

definition no_empty_bucket :: "(string \<times> bucket) list \<Rightarrow> bool" where
  "no_empty_bucket allSubscribers =
     (\<forall>kb \<in> set allSubscribers. used (bucket_b (snd kb)) \<or> used (bucket_a (snd kb)))"

text \<open>What a step appended to the trace.\<close>

definition new_trace :: "state \<Rightarrow> state \<Rightarrow> log_entry list" where
  "new_trace st st' = drop (length (trace st)) (trace st')"

text \<open>The calls of the notifier that was found under \<open>key\<close>.\<close>

definition notified_under :: "string \<Rightarrow> log_entry \<Rightarrow> bool" where
  "notified_under key x = (case x of Notified k c ctx t item \<Rightarrow> k = key | _ \<Rightarrow> False)"

text \<open>
  What the notifier registered under \<open>key\<close> adds to the trace when a subscription to
  \<open>t\<close> finds it, and whether it is a \<open>once\<close> notifier.
\<close>

definition fired :: "state \<Rightarrow> string \<Rightarrow> string \<Rightarrow> subscriber \<Rightarrow> log_entry list" where
  "fired st key t item =
     (case notifiers st key of None \<Rightarrow> [] | Some n \<Rightarrow> [Notified key (n_cb n) (n_o n) t item])"

definition fires_once :: "state \<Rightarrow> string \<Rightarrow> bool" where
  "fires_once st key = (case notifiers st key of None \<Rightarrow> False | Some n \<Rightarrow> truthy (n_r n))"

text \<open>
  The slot that the merge loop of \<open>_emit\<close> creates for a payload key: the original
  descriptor for a writable own data property, else a fresh data property that holds the
  value read from the payload.
\<close>

definition merged_slot :: "(nat \<Rightarrow> jsval) \<Rightarrow> payload \<Rightarrow> string \<Rightarrow> descriptor" where
  "merged_slot gr p key =
     (case getOwnPropertyDescriptor p key of
        None \<Rightarrow> Data (payload_get gr p key) True True True
      | Some (Accessor g en cf) \<Rightarrow> Data (payload_get gr p key) True True True
      | Some (Data v w en cf) \<Rightarrow>
          if w then Data v w en cf else Data (payload_get gr p key) True True True)"

definition is_accessor :: "descriptor \<Rightarrow> bool" where
  "is_accessor d = (case d of Data v w en cf \<Rightarrow> False | Accessor g en cf \<Rightarrow> True)"

subsection \<open>Reading the trace of a dispatch\<close>

text \<open>The topic, and the stage, of the dispatch that made an entry.\<close>

fun topic_of :: "log_entry \<Rightarrow> string option" where
  "topic_of (Invoked t sg sb) = Some t"
| "topic_of (UserCallback t sg h f) = Some t"
| "topic_of (FilterCalled t sg sb) = Some t"
| "topic_of (Api t sg a) = Some t"
| "topic_of (DefaultFnCalled t f) = Some t"
| "topic_of (PreventedFnCalled t f) = Some t"
| "topic_of (ConsoleWarn (CannotSilence t)) = Some t"
| "topic_of x = None"

text \<open>The subscribers that were invoked in stage \<open>sg\<close> of topic \<open>t\<close>, in order.\<close>

definition invoked :: "string \<Rightarrow> stage \<Rightarrow> log_entry list \<Rightarrow> subscriber list" where
  "invoked t sg xs =
     List.map_filter
       (\<lambda>x. case x of Invoked t' sg' sb \<Rightarrow> if t' = t \<and> sg' = sg then Some sb else None
                     | _ \<Rightarrow> None) xs"

text \<open>The calls that callbacks of stage \<open>sg\<close> of topic \<open>t\<close> made to the event object.\<close>

definition api_calls :: "string \<Rightarrow> stage \<Rightarrow> log_entry list \<Rightarrow> action list" where
  "api_calls t sg xs =
     List.map_filter
       (\<lambda>x. case x of Api t' sg' a \<Rightarrow> if t' = t \<and> sg' = sg then Some a else None
                     | _ \<Rightarrow> None) xs"

text \<open>The default and the prevented functions that were called for topic \<open>t\<close>.\<close>

definition default_called :: "string \<Rightarrow> log_entry list \<Rightarrow> fn list" where
  "default_called t xs =
     List.map_filter
       (\<lambda>x. case x of DefaultFnCalled t' f \<Rightarrow> if t' = t then Some f else None | _ \<Rightarrow> None) xs"

definition prevented_called :: "string \<Rightarrow> log_entry list \<Rightarrow> fn list" where
  "prevented_called t xs =
     List.map_filter
       (\<lambda>x. case x of PreventedFnCalled t' f \<Rightarrow> if t' = t then Some f else None | _ \<Rightarrow> None) xs"

text \<open>The user callbacks that the wrapper of handler \<open>h\<close> called.\<close>

definition user_calls :: "nat \<Rightarrow> log_entry list \<Rightarrow> fn list" where
  "user_calls h xs =
     List.map_filter
       (\<lambda>x. case x of UserCallback t sg h' f \<Rightarrow> if h' = h then Some f else None | _ \<Rightarrow> None) xs"

text \<open>
  What a dispatch leaves alone: the registries, the set of running topics and the
  environment of the event objects.
\<close>

definition frame :: "state \<Rightarrow> state \<Rightarrow> bool" where
  "frame st st' =
     (subs st' = subs st \<and> ce st' = ce st \<and> notifiers st' = notifiers st
      \<and> detachNotifiers st' = detachNotifiers st \<and> runningEvents st' = runningEvents st
      \<and> getterResult st' = getterResult st \<and> defaultEventObj st' = defaultEventObj st
      \<and> handlers st' = handlers st \<and> nextHandler st' = nextHandler st)"

text \<open>An entry that no dispatch of a topic in \<open>R\<close> made.\<close>

definition foreign :: "string set \<Rightarrow> log_entry \<Rightarrow> bool" where
  "foreign R x = (case topic_of x of None \<Rightarrow> True | Some t \<Rightarrow> t \<notin> R)"

text \<open>
  A step that leaves the frame alone and appends to the trace only entries that are
  foreign to the topics running when it starts; and an \<open>emit\<close> all of whose returning
  calls are such steps.
\<close>

definition quiet :: "state \<Rightarrow> state \<Rightarrow> bool" where
  "quiet st st' =
     (frame st st'
      \<and> (\<exists>new. trace st' = trace st @ new \<and> (\<forall>x \<in> set new. foreign (runningEvents st) x)))"

definition well_behaved :: "emitfn \<Rightarrow> bool" where
  "well_behaved nested =
     (\<forall>emitter0 customEvent payload0 st r.
        nested emitter0 customEvent payload0 st = Some r \<longrightarrow> quiet st (snd r))"

text \<open>An entry that stage \<open>sg\<close> of the dispatch of \<open>t\<close> makes itself.\<close>

definition own_entry :: "string \<Rightarrow> stage \<Rightarrow> log_entry \<Rightarrow> bool" where
  "own_entry t sg x =
     (case x of
        Invoked t' sg' sb \<Rightarrow> t' = t \<and> sg' = sg
      | UserCallback t' sg' h f \<Rightarrow> t' = t \<and> sg' = sg
      | FilterCalled t' sg' sb \<Rightarrow> t' = t \<and> sg' = sg
      | Api t' sg' a \<Rightarrow> t' = t \<and> sg' = sg
      | ConsoleWarn m \<Rightarrow> m = CannotSilence t
      | _ \<Rightarrow> False)"

text \<open>
  The event object after the entries of a stage, replayed: each recorded call to the event
  object, and each forced \<open>e.silent = false\<close>.
\<close>

definition replay_entry :: "(nat \<Rightarrow> jsval) \<Rightarrow> string \<Rightarrow> stage \<Rightarrow> log_entry \<Rightarrow> event \<Rightarrow> event" where
  "replay_entry gr t sg x e =
     (case x of
        Api t' sg' a \<Rightarrow> if t' = t \<and> sg' = sg then apply_action gr a e else e
      | ConsoleWarn m \<Rightarrow> if m = CannotSilence t then assign e ''silent'' (JBool False) else e
      | _ \<Rightarrow> e)"

definition replay :: "(nat \<Rightarrow> jsval) \<Rightarrow> string \<Rightarrow> stage \<Rightarrow> log_entry list \<Rightarrow> event \<Rightarrow> event" where
  "replay gr t sg new e = fold (replay_entry gr t sg) new e"

definition stage_step ::
  "string \<Rightarrow> stage \<Rightarrow> event \<Rightarrow> state \<Rightarrow> log_entry list \<Rightarrow> event \<Rightarrow> state \<Rightarrow> bool" where
  "stage_step t sg e st new e' st' =
     (frame st st' \<and> trace st' = trace st @ new
      \<and> (\<forall>x \<in> set new. own_entry t sg x \<or> foreign (runningEvents st) x)
      \<and> e' = replay (getterResult st) t sg new e)"

subsection \<open>The order of the buckets\<close>

definition bucket_list :: "bool \<Rightarrow> bucket option \<Rightarrow> subscriber list" where
  "bucket_list bef subscribers =
     (case subscribers of
        None \<Rightarrow> []
      | Some bk \<Rightarrow> (case (if bef then bucket_b bk else bucket_a bk) of None \<Rightarrow> [] | Some l \<Rightarrow> l))"

text \<open>The subscribers a phase goes through: the override list, or the buckets in turn.\<close>

definition phase_subscribers ::
  "bool \<Rightarrow> subscriber list option \<Rightarrow> bucket option list \<Rightarrow> subscriber list" where
  "phase_subscribers bef override buckets =
     (case override of Some l \<Rightarrow> l | None \<Rightarrow> concat (map (bucket_list bef) buckets))"



text \<open>
  A step of the dispatch of \<open>t\<close>: the frame stays, and every new entry is one of this
  dispatch or foreign to the running topics.
\<close>

definition dispatch_step :: "string \<Rightarrow> state \<Rightarrow> log_entry list \<Rightarrow> state \<Rightarrow> bool" where
  "dispatch_step t st new st' =
     (frame st st' \<and> trace st' = trace st @ new
      \<and> (\<forall>x \<in> set new. topic_of x = Some t \<or> foreign (runningEvents st) x))"

text \<open>\<open>e.status.defaultPrevented || e.status.defaultPreventedContinue\<close>.\<close>

definition prevented :: "event \<Rightarrow> bool" where
  "prevented e = (truthy (s_defaultPrevented (e_status e))
                  \<or> truthy (s_defaultPreventedContinue (e_status e)))"

subsection \<open>The calls to the event object\<close>

text \<open>The reasons of the calls of \<open>e.halt\<close>, \<open>e.preventDefault\<close> and \<open>e.preventDefaultContinue\<close> in a list of calls, in order.\<close>

definition halts :: "action list \<Rightarrow> jsval list" where
  "halts xs = List.map_filter (\<lambda>a. case a of Halt r \<Rightarrow> Some r | _ \<Rightarrow> None) xs"

definition prevents :: "action list \<Rightarrow> jsval list" where
  "prevents xs = List.map_filter (\<lambda>a. case a of PreventDefault r \<Rightarrow> Some r | _ \<Rightarrow> None) xs"

definition continues :: "action list \<Rightarrow> jsval list" where
  "continues xs =
     List.map_filter (\<lambda>a. case a of PreventDefaultContinue r \<Rightarrow> Some r | _ \<Rightarrow> None) xs"

text \<open>
  An event object on which \<open>halt\<close>, respectively \<open>preventDefault\<close> and
  \<open>preventDefaultContinue\<close>, take effect: \<open>status.ok\<close> is not true and the flag of the
  definition is not set.
\<close>

definition haltable :: "(nat \<Rightarrow> jsval) \<Rightarrow> event \<Rightarrow> bool" where
  "haltable gr e =
     (s_ok (e_status e) \<noteq> Some True \<and> \<not> truthy (get_prop gr e ''_unHaltable''))"

definition preventable_event :: "(nat \<Rightarrow> jsval) \<Rightarrow> event \<Rightarrow> bool" where
  "preventable_event gr e =
     (s_ok (e_status e) \<noteq> Some True \<and> \<not> truthy (get_prop gr e ''_unPreventable''))"

text \<open>
  The subscribers of a sequence that pass the self check and, where filters are checked,
  their filter.
\<close>

definition admits :: "bool \<Rightarrow> event \<Rightarrow> subscriber \<Rightarrow> bool" where
  "admits checkFilter e sb =
     ((\<not> sub_s sb \<or> JObj (sub_o sb) = e_target e)
      \<and> (\<not> checkFilter \<or> (case sub_f sb of None \<Rightarrow> True | Some ff \<Rightarrow> truthy (ret ff))))"

text \<open>The event object stops a phase: it is silent or halted.\<close>

definition stopped :: "(nat \<Rightarrow> jsval) \<Rightarrow> event \<Rightarrow> bool" where
  "stopped gr e = (truthy (get_prop gr e ''silent'') \<or> truthy (s_halted (e_status e)))"

subsection \<open>The bound on nested emissions\<close>

text \<open>
  The topics that a script emits, those of the functions of a subscriber and of a
  definition, and a set \<open>T\<close> of topics that holds all topics emitted by the scripts of the
  registry, of the definitions of the topics in \<open>T\<close> and of the caller's subscriber lists.
\<close>

definition script_topics :: "action list \<Rightarrow> string set" where
  "script_topics xs =
     set (List.map_filter
            (\<lambda>x. case x of Emit emitter0 customEvent payload0 \<Rightarrow> Some (qualify emitter0 customEvent)
                          | _ \<Rightarrow> None) xs)"

definition callback_fn :: "callback \<Rightarrow> fn" where
  "callback_fn c = (case c of Plain f \<Rightarrow> f | Wrapper h f \<Rightarrow> f)"

definition subscriber_topics :: "subscriber \<Rightarrow> string set" where
  "subscriber_topics sb =
     script_topics (body (callback_fn (sub_cb sb)))
     \<union> (case sub_f sb of None \<Rightarrow> {} | Some ff \<Rightarrow> script_topics (body ff))"

definition definition_topics :: "ce_definition option \<Rightarrow> string set" where
  "definition_topics customEventDefinition =
     (case customEventDefinition of
        None \<Rightarrow> {}
      | Some d \<Rightarrow>
          (case defaultFn d of None \<Rightarrow> {} | Some f \<Rightarrow> script_topics (body f))
          \<union> (case preventedFn d of None \<Rightarrow> {} | Some f \<Rightarrow> script_topics (body f)))"

definition override_list :: "subscriber list option \<Rightarrow> subscriber list" where
  "override_list override = (case override of None \<Rightarrow> [] | Some l \<Rightarrow> l)"

definition scripts_within :: "string set \<Rightarrow> state \<Rightarrow> bool" where
  "scripts_within T st =
     ((\<forall>kb \<in> set (subs st).
         \<forall>sb \<in> set (bucket_list True (Some (snd kb))) \<union> set (bucket_list False (Some (snd kb))).
           subscriber_topics sb \<subseteq> T)
      \<and> (\<forall>k \<in> T. definition_topics (ce st k) \<subseteq> T))"

definition covers ::
  "string set \<Rightarrow> state \<Rightarrow> subscriber list option \<Rightarrow> subscriber list option \<Rightarrow> bool" where
  "covers T st bs as =
     (scripts_within T st
      \<and> (\<forall>sb \<in> set (override_list bs) \<union> set (override_list as). subscriber_topics sb \<subseteq> T))"

text \<open>
  An \<open>emit\<close> that returns for every topic of \<open>T\<close>, in every state that differs from
  \<open>st0\<close> by the trace and the one-shot flags only.
\<close>

definition serves :: "emitfn \<Rightarrow> string set \<Rightarrow> state \<Rightarrow> bool" where
  "serves nested T st0 =
     (\<forall>emitter0 customEvent payload0 st.
        frame st0 st \<longrightarrow> qualify emitter0 customEvent \<in> T \<longrightarrow>
        nested emitter0 customEvent payload0 st \<noteq> None)"

text \<open>An \<open>emit\<close> that returns whatever another one returns.\<close>

definition extends :: "emitfn \<Rightarrow> emitfn \<Rightarrow> bool" where
  "extends nested nested' =
     (\<forall>emitter0 customEvent payload0 st r.
        nested emitter0 customEvent payload0 st = Some r \<longrightarrow>
        nested' emitter0 customEvent payload0 st = Some r)"

subsection \<open>Undisturbed emissions and payloads that carry a flag\<close>


text \<open>
  The payload puts a truthy property \<open>key\<close> on the event object of a topic without a
  definition: \<open>for (key in payload)\<close> reaches the name, \<open>key in e\<close> is false, and
  \<open>payload[key]\<close> is truthy.
\<close>

definition carries :: "(nat \<Rightarrow> jsval) \<Rightarrow> string list \<Rightarrow> payload option \<Rightarrow> string \<Rightarrow> bool" where
  "carries gr proto payload0 key =
     (case payload0 of
        None \<Rightarrow> False
      | Some p \<Rightarrow> key \<in> set (for_in p) \<and> key \<notin> set proto \<and> truthy (payload_get gr p key))"

text \<open>
  \<open>e._unHaltable\<close> is falsy on the event object of an emission of \<open>t\<close>: the definition is
  not \<open>unHaltable\<close>, or there is no definition and the payload carries no truthy
  \<open>_unHaltable\<close>.
\<close>

definition accepts_halt :: "state \<Rightarrow> string \<Rightarrow> payload option \<Rightarrow> bool" where
  "accepts_halt st t payload0 =
     (case ce st t of
        Some d \<Rightarrow> \<not> unHaltable d
      | None \<Rightarrow> \<not> carries (getterResult st) (defaultEventObj st) payload0 ''_unHaltable'')"

subsection \<open>Objects and functions of the examples\<close>

definition redObject :: obj where
  "redObject = Obj 1 None"

definition blueObject :: obj where
  "blueObject = Obj 2 None"

definition noop :: fn where
  "noop = Fn 1 [] JUndefined"

definition red_save_handle :: sub_handle where
  "red_save_handle = \<lparr>h_listener = Some redObject, h_before = True,
     h_customEvent = ''red:save'', h_callback = Plain noop\<rparr>"

definition red_save_record :: subscriber where
  "red_save_record = \<lparr>sub_o = redObject, sub_cb = Plain noop, sub_f = None, sub_s = False\<rparr>"

text \<open>\<open>Event.before('red:save', noop, redObject)\<close>, once and twice.\<close>

definition one_subscription :: state where
  "one_subscription =
     snd (Event_before (One ''red:save'') noop (Some redObject) None False init_state)"

definition two_equal_subscriptions :: state where
  "two_equal_subscriptions =
     snd (Event_before (One ''red:save'') noop (Some redObject) None False one_subscription)"

text \<open>\<open>blueObject.before('save', noop)\<close>.\<close>

definition bare_subscription :: "multi_result \<times> state" where
  "bare_subscription = Event_before (One ''save'') noop (Some blueObject) None False init_state"

text \<open>\<open>Event.notify('red:*', cb7, Event, true)\<close> and \<open>Event.notify(['red:save', 'red:*'], cb7, Event, true)\<close>.\<close>

definition wildcard_once_notifier :: state where
  "wildcard_once_notifier = notify [''red:*''] 7 (JObj Event_instance) (JBool True) init_state"

definition literal_once_notifier :: state where
  "literal_once_notifier =
     notify [''red:save'', ''red:*''] 7 (JObj Event_instance) (JBool True) init_state"

text \<open>A payload with a getter \<open>total\<close>, a plain \<open>amount\<close> and a \<open>type\<close> of its own.\<close>

definition getter_payload :: payload where
  "getter_payload =
     \<lparr>own = [(''total'', Accessor 5 True True),
             (''amount'', Data (JNum 3) True True True),
             (''type'', Data (JStr ''other'') True True True)],
      inherited = []\<rparr>"

definition getter_state :: state where
  "getter_state = init_state\<lparr>getterResult := (\<lambda>g. JNum 1)\<rparr>"






definition record_of :: "fn \<Rightarrow> subscriber" where
  "record_of f = \<lparr>sub_o = redObject, sub_cb = Plain f, sub_f = None, sub_s = False\<rparr>"


definition fn_reemit :: fn where
  "fn_reemit = Fn 21 [Emit redObject ''red:save'' None] JUndefined"

text \<open>\<open>Event.before('red:save', function() {Event.emit(redObject, 'red:save');}, redObject)\<close>.\<close>

definition reemitting :: state where
  "reemitting =
     snd (Event_before (One ''red:save'') fn_reemit (Some redObject) None False init_state)"

text \<open>A one-shot subscription on \<open>red:*\<close> whose callback emits \<open>red:b\<close>, and a plain one.\<close>

definition fn_emit_b :: fn where
  "fn_emit_b = Fn 22 [Emit redObject ''red:b'' None] JUndefined"

definition once_nested :: state where
  "once_nested = snd (onceBefore (One ''red:*'') fn_emit_b (Some redObject) None False init_state)"

definition once_plain :: state where
  "once_plain = snd (onceBefore (One ''red:save'') noop (Some redObject) None False init_state)"

text \<open>
  Definitions of \<open>red:save\<close> and subscribers whose callbacks call \<open>e.halt('stop')\<close>,
  \<open>e.preventDefault()\<close> and \<open>e.preventDefaultContinue()\<close>.
\<close>

definition fn_default :: fn where
  "fn_default = Fn 31 [] JUndefined"

definition fn_prevented :: fn where
  "fn_prevented = Fn 32 [] JUndefined"

definition fn_halt :: fn where
  "fn_halt = Fn 33 [Halt (JStr ''stop'')] JUndefined"

definition fn_prevent :: fn where
  "fn_prevent = Fn 34 [PreventDefault JUndefined] JUndefined"


definition fn_after :: fn where
  "fn_after = Fn 36 [] JUndefined"

text \<open>\<open>Event.before('red:save', f, redObject); Event.after('red:save', fn_after, redObject)\<close>.\<close>

definition subscribed :: "fn \<Rightarrow> state \<Rightarrow> state" where
  "subscribed f st =
     snd (Event_after (One ''red:save'') fn_after (Some redObject) None False
       (snd (Event_before (One ''red:save'') f (Some redObject) None False st)))"

text \<open>\<open>Event.defineEvent('red:save').defaultFn(fn_default).preventedFn(fn_prevented)\<close>.\<close>

definition both_functions :: state where
  "both_functions =
     defineEvent ''red:save'' [Chain_defaultFn fn_default, Chain_preventedFn fn_prevented] init_state"

text \<open>\<open>Event.defineEvent('red:save').defaultFn(fn_default)\<close>.\<close>

definition default_only :: state where
  "default_only = defineEvent ''red:save'' [Chain_defaultFn fn_default] init_state"


text \<open>
  Callbacks that emit \<open>red:b\<close> before they call \<open>e.halt('stop')\<close>, \<open>e.preventDefault()\<close>
  or \<open>e.preventDefaultContinue()\<close>, and one that only emits \<open>red:b\<close>.
\<close>

definition fn_emit_halt :: fn where
  "fn_emit_halt = Fn 41 [Emit redObject ''red:b'' None, Halt (JStr ''stop'')] JUndefined"

definition fn_emit_prevent :: fn where
  "fn_emit_prevent = Fn 42 [Emit redObject ''red:b'' None, PreventDefault JUndefined] JUndefined"




text \<open>The payload \<open>{_unHaltable: true}\<close>.\<close>

definition unHaltable_payload :: payload where
  "unHaltable_payload =
     \<lparr>own = [(''_unHaltable'', Data (JBool True) True True True)], inherited = []\<rparr>"

lemmas registry_defs = addSubscriber_def register_item_def ensure_bucket_def insert_item_def
  run_notifiers_def notifier_check_def removeSubscriber_def remove_entry_def
  detach_notifier_check_def removeSubscribers_def detach_def detachAll_def matches_sub_def
  used_def console_def init_state_def addMultiSubs_def Event_before_def Event_after_def
  Event_instance_def detach_sub_handle_def once_def onceBefore_def onceAfter_def
  run_timer_def run_timers_def unNotify_def unNotifyDetach_def Let_def

section \<open>Properties of topic strings\<close>

lemma name_char_not_colon: "name_char c \<Longrightarrow> c \<noteq> CHR '':''"
  by (auto simp: name_char_def)

lemma name_char_not_star: "name_char c \<Longrightarrow> c \<noteq> CHR ''*''"
  by (auto simp: name_char_def)

lemma is_name_no_colon: "is_name s \<Longrightarrow> CHR '':'' \<notin> set s"
  by (auto simp: is_name_def list_all_iff dest: name_char_not_colon)

lemma is_name_no_star: "is_name s \<Longrightarrow> CHR ''*'' \<notin> set s"
  by (auto simp: is_name_def list_all_iff dest: name_char_not_star)

lemma is_name_not_wild: "is_name s \<Longrightarrow> s \<noteq> ''*''"
  using is_name_no_star by fastforce

lemma split_at_colon:
  "has_colon s \<Longrightarrow> s = before_colon s @ '':'' @ after_colon s"
proof -
  assume h: "has_colon s"
  let ?P = "\<lambda>c. c \<noteq> CHR '':''"
  have "dropWhile ?P s \<noteq> []" using h by (auto simp: has_colon_def dropWhile_eq_Nil_conv)
  moreover have "?P (hd (dropWhile ?P s)) = False"
    using calculation hd_dropWhile[of ?P s] by auto
  ultimately have "dropWhile ?P s = CHR '':'' # drop 1 (dropWhile ?P s)"
    by (cases "dropWhile ?P s") auto
  then have "takeWhile ?P s @ CHR '':'' # drop 1 (dropWhile ?P s) = s"
    using takeWhile_dropWhile_id[of ?P s] by simp
  then show ?thesis by (simp add: before_colon_def after_colon_def)
qed

lemma match_customevent_split:
  assumes "match_customevent t = Some (em, ev)"
  shows "t = em @ CHR '':'' # ev \<and> is_name em \<and> is_name ev"
  using assms split_at_colon[of t]
  by (auto simp: match_customevent_def split: if_splits)

lemma takeWhile_colon: "CHR '':'' \<notin> set em \<Longrightarrow> takeWhile (\<lambda>c. c \<noteq> CHR '':'') (em @ CHR '':'' # ev) = em"
  by (induction em) auto

lemma dropWhile_colon: "CHR '':'' \<notin> set em \<Longrightarrow> dropWhile (\<lambda>c. c \<noteq> CHR '':'') (em @ CHR '':'' # ev) = CHR '':'' # ev"
  by (induction em) auto

lemma before_colon_concrete: "CHR '':'' \<notin> set em \<Longrightarrow> before_colon (em @ CHR '':'' # ev) = em"
  by (simp add: before_colon_def takeWhile_colon)

lemma after_colon_concrete: "CHR '':'' \<notin> set em \<Longrightarrow> after_colon (em @ CHR '':'' # ev) = ev"
  by (simp add: after_colon_def dropWhile_colon)

lemma has_colon_concrete: "has_colon (em @ CHR '':'' # ev)"
  by (simp add: has_colon_def)

lemma match_wildcard_concrete:
  "is_name em \<Longrightarrow> is_name ev \<Longrightarrow> match_wildcard (em @ CHR '':'' # ev) = Some (Some em, ev)"
  by (simp add: match_wildcard_def has_colon_concrete before_colon_concrete after_colon_concrete
      is_name_no_colon is_wname_def)

lemma replace_eventname_concrete:
  assumes "is_name em" "is_name ev"
  shows "replace_eventname (em @ CHR '':'' # ev) = em @ '':*''"
proof -
  have "CHR '':'' \<notin> set (rev ev)" using is_name_no_colon[OF assms(2)] by simp
  then have "takeWhile (\<lambda>c. c \<noteq> CHR '':'') (rev ev @ CHR '':'' # rev em) = rev ev"
    by (rule takeWhile_colon)
  then show ?thesis using assms
    by (simp add: replace_eventname_def has_colon_concrete)
qed

lemma replace_emittername_concrete:
  assumes "is_name em"
  shows "replace_emittername (em @ CHR '':'' # ev) = ''*:'' @ ev"
  using assms
  by (simp add: replace_emittername_def has_colon_concrete before_colon_concrete
      after_colon_concrete is_name_no_colon)

lemma concrete_keys_distinct:
  assumes "is_name em" "is_name ev"
  shows "em @ '':*'' \<noteq> em @ CHR '':'' # ev" "''*:'' @ ev \<noteq> em @ CHR '':'' # ev"
        "''*:*'' \<noteq> em @ CHR '':'' # ev" "em @ '':*'' \<noteq> ''*:'' @ ev" "em @ '':*'' \<noteq> ''*:*''"
        "''*:'' @ ev \<noteq> ''*:*''"
proof -
  show "em @ '':*'' \<noteq> em @ CHR '':'' # ev" using is_name_not_wild[OF assms(2)] by auto
  obtain c cs where em: "em = c # cs" "c \<noteq> CHR ''*''"
    using assms(1) is_name_no_star[OF assms(1)] by (cases em) (auto simp: is_name_def)
  show "''*:'' @ ev \<noteq> em @ CHR '':'' # ev" using em by auto
  show "''*:*'' \<noteq> em @ CHR '':'' # ev" using em by auto
  show "em @ '':*'' \<noteq> ''*:'' @ ev" using em by auto
  show "em @ '':*'' \<noteq> ''*:*''" using em by auto
  show "''*:'' @ ev \<noteq> ''*:*''" using is_name_not_wild[OF assms(2)] by auto
qed

subsection \<open>The topics of the examples\<close>

lemma parse_red_save:
  "match_wildcard ''red:save'' = Some (Some ''red'', ''save'')"
  "match_customevent ''red:save'' = Some (''red'', ''save'')"
  "replace_eventname ''red:save'' = ''red:*''"
  "replace_emittername ''red:save'' = ''*:save''"
  "has_colon ''red:save''"
  by code_simp+

lemma parse_red_create:
  "match_wildcard ''red:create'' = Some (Some ''red'', ''create'')"
  "match_customevent ''red:create'' = Some (''red'', ''create'')"
  "replace_eventname ''red:create'' = ''red:*''"
  "replace_emittername ''red:create'' = ''*:create''"
  "has_colon ''red:create''"
  by code_simp+

lemma parse_UI_save:
  "match_wildcard ''UI:save'' = Some (Some ''UI'', ''save'')"
  "match_customevent ''UI:save'' = Some (''UI'', ''save'')"
  "replace_eventname ''UI:save'' = ''UI:*''"
  "replace_emittername ''UI:save'' = ''*:save''"
  by code_simp+

lemma parse_save:
  "match_wildcard ''save'' = Some (None, ''save'')"
  "match_customevent ''save'' = None"
  by code_simp+

lemma parse_wildcards:
  "match_wildcard ''red:*'' = Some (Some ''red'', ''*'')"
  "match_wildcard ''*:save'' = Some (Some ''*'', ''save'')"
  "match_wildcard ''*:*'' = Some (Some ''*'', ''*'')"
  "match_customevent ''red:*'' = None"
  "match_customevent ''*:save'' = None"
  "match_customevent ''*:*'' = None"
  by code_simp+

lemmas topic_simps = parse_red_save parse_red_create parse_UI_save parse_save parse_wildcards
  WILDCARD_WILDCARD_def

section \<open>Properties of the subscription registry\<close>

lemma subs_detach_notifier_check [simp]:
  "subs (detach_notifier_check key c st) = subs st"
  by (simp add: detach_notifier_check_def console_def Let_def split: option.splits)

lemma subs_notifier_check [simp]:
  "subs (notifier_check key c item st) = subs st"
  by (simp add: notifier_check_def console_def Let_def split: option.splits)

lemma subs_run_notifiers [simp]:
  "subs (run_notifiers c item st) = subs st"
  by (simp add: run_notifiers_def Let_def)

lemma subs_removeSubscriber:
  "subs (removeSubscriber l b c cb st) = remove_entry l b c cb (subs st)"
  by (simp add: removeSubscriber_def Let_def split: option.splits)

lemma remove_entry_other:
  "k \<noteq> c \<Longrightarrow> map_of (remove_entry l b c cb al) k = map_of al k"
  by (simp add: remove_entry_def Let_def update_conv' delete_conv' split: option.splits)

lemma splice_loop_filter:
  "splice_loop l cb xs = filter (\<lambda>sb. \<not> matches_sub l cb sb) xs"
  by (induction xs) simp_all

lemma set_update_subset: "set (AList.update k v al) \<subseteq> insert (k, v) (set al)"
  by (induction al) auto

lemma set_delete_subset: "set (AList.delete k al) \<subseteq> set al"
  by (auto simp: AList.delete_eq)

lemma used_map_option_splice:
  "used (map_option (splice_loop l cb) x) \<Longrightarrow> used x"
  by (cases x) (auto simp: used_def splice_loop_filter intro: ccontr)

lemma no_empty_remove_entry:
  assumes "no_empty_bucket al"
  shows "no_empty_bucket (remove_entry l b c cb al)"
proof (cases "map_of al c")
  case None
  then show ?thesis using assms by (simp add: remove_entry_def)
next
  case (Some es)
  define bk where "bk = (if b then es\<lparr>bucket_b := map_option (splice_loop l cb) (bucket_b es)\<rparr>
                     else es\<lparr>bucket_a := map_option (splice_loop l cb) (bucket_a es)\<rparr>)"
  show ?thesis
  proof (cases "\<not> used (bucket_b bk) \<and> \<not> used (bucket_a bk)")
    case True
    then have "remove_entry l b c cb al = AList.delete c al"
      using Some by (cases b) (auto simp: remove_entry_def bk_def Let_def)
    then show ?thesis using assms set_delete_subset[of c al]
      by (auto simp: no_empty_bucket_def)
  next
    case False
    then have eq: "remove_entry l b c cb al = AList.update c bk al"
      using Some by (cases b) (auto simp: remove_entry_def bk_def Let_def)
    show ?thesis unfolding eq no_empty_bucket_def
    proof
      fix kb assume "kb \<in> set (AList.update c bk al)"
      then have "kb = (c, bk) \<or> kb \<in> set al" using set_update_subset[of c bk al] by auto
      then show "used (bucket_b (snd kb)) \<or> used (bucket_a (snd kb))"
        using False assms by (auto simp: no_empty_bucket_def)
    qed
  qed
qed

lemma phase_list_remove_entry_same:
  "phase_list (remove_entry l b c cb al) c b = filter (\<lambda>sb. \<not> matches_sub l cb sb) (phase_list al c b)"
  by (cases b) (auto simp: phase_list_def remove_entry_def Let_def update_conv' delete_conv' used_def splice_loop_filter
      split: option.splits)

lemma phase_list_remove_entry_opposite:
  "phase_list (remove_entry l b c cb al) c (\<not> b) = phase_list al c (\<not> b)"
  by (cases b) (auto simp: phase_list_def remove_entry_def Let_def update_conv' delete_conv' used_def splice_loop_filter
      split: option.splits)

lemma no_empty_removeSubscriber:
  "no_empty_bucket (subs st) \<Longrightarrow> no_empty_bucket (subs (removeSubscriber l b c cb st))"
  by (simp add: subs_removeSubscriber no_empty_remove_entry)

lemma no_empty_remove_each:
  "no_empty_bucket (subs st) \<Longrightarrow> no_empty_bucket (subs (snd (remove_each l em ev keys st)))"
  by (induction keys arbitrary: st) (auto simp: no_empty_removeSubscriber Let_def split: option.splits)

lemma no_empty_removeSubscribers:
  "no_empty_bucket (subs st) \<Longrightarrow> no_empty_bucket (subs (snd (removeSubscribers l c st)))"
  by (auto simp: removeSubscribers_def no_empty_removeSubscriber no_empty_remove_each console_def Let_def split: option.splits)

lemma no_empty_detachAll:
  "no_empty_bucket (subs st) \<Longrightarrow> no_empty_bucket (subs (snd (detachAll l st)))"
proof (cases l)
  case None
  then show ?thesis by (simp add: detachAll_def no_empty_bucket_def)
next
  case (Some a)
  assume "no_empty_bucket (subs st)"
  then show ?thesis using Some by (simp add: detachAll_def no_empty_removeSubscribers)
qed

lemma no_empty_detach_each:
  "no_empty_bucket (subs st) \<Longrightarrow> no_empty_bucket (subs (snd (detach_each hs st)))"
  by (induction hs arbitrary: st) (auto simp: detach_sub_handle_def no_empty_removeSubscriber split: option.splits)

lemma no_empty_detach_handle:
  "no_empty_bucket (subs st) \<Longrightarrow> no_empty_bucket (subs (snd (detach_handle hdl st)))"
  by (cases hdl) (auto simp: detach_sub_handle_def no_empty_removeSubscriber no_empty_detach_each)

lemma no_empty_fold_run_timer:
  "no_empty_bucket (subs st) \<Longrightarrow> no_empty_bucket (subs (fold run_timer hs st))"
  by (induction hs arbitrary: st) (auto simp: run_timer_def no_empty_detach_handle split: option.splits)

lemma no_empty_run_timers:
  "no_empty_bucket (subs st) \<Longrightarrow> no_empty_bucket (subs (run_timers st))"
  by (simp add: run_timers_def no_empty_fold_run_timer)

text \<open>
  C7, as the code has it. \<open>handle.detach()\<close> calls \<open>_removeSubscriber\<close> with the owner
  and the callback of the subscription, and the loop there splices out every record of the
  handle's sequence that has this owner and this callback: one record when the pair was
  subscribed once, all of them when it was subscribed several times. Every other record
  stays where it is. Starting from a registry without an entry whose two sequences are
  both empty, none of \<open>handle.detach()\<close>, \<open>_removeSubscriber\<close>, \<open>_removeSubscribers\<close>,
  \<open>detach\<close>, \<open>detachAll\<close>, the composite handle's \<open>detach()\<close> and the deferred detach
  of a one-shot subscription leaves such an entry behind: a topic whose last record goes
  loses its entry.
\<close>

theorem detach_removes_matching_records:
  assumes "no_empty_bucket (subs st)"
  shows "no_empty_bucket (subs (detach_sub_handle h st))
       \<and> phase_list (subs (detach_sub_handle h st)) (h_customEvent h) (h_before h)
           = filter (\<lambda>sb. \<not> matches_sub (h_listener h) (Some (h_callback h)) sb)
               (phase_list (subs st) (h_customEvent h) (h_before h))
       \<and> phase_list (subs (detach_sub_handle h st)) (h_customEvent h) (\<not> h_before h)
           = phase_list (subs st) (h_customEvent h) (\<not> h_before h)
       \<and> (\<forall>k. k \<noteq> h_customEvent h \<longrightarrow>
              map_of (subs (detach_sub_handle h st)) k = map_of (subs st) k)
       \<and> (phase_list (subs (detach_sub_handle h st)) (h_customEvent h) True = []
            \<and> phase_list (subs (detach_sub_handle h st)) (h_customEvent h) False = []
          \<longrightarrow> map_of (subs (detach_sub_handle h st)) (h_customEvent h) = None)
       \<and> no_empty_bucket (subs (removeSubscriber l b c cb st))
       \<and> no_empty_bucket (subs (snd (removeSubscribers l c st)))
       \<and> no_empty_bucket (subs (snd (detach l c st)))
       \<and> no_empty_bucket (subs (snd (detachAll l st)))
       \<and> no_empty_bucket (subs (snd (detach_handle hdl st)))
       \<and> no_empty_bucket (subs (run_timers st))"
proof -
  let ?st' = "detach_sub_handle h st"
  have inv: "no_empty_bucket (subs ?st')"
    using assms by (simp add: detach_sub_handle_def no_empty_removeSubscriber)
  have gone: "map_of (subs ?st') (h_customEvent h) = None"
    if "phase_list (subs ?st') (h_customEvent h) True = []"
       "phase_list (subs ?st') (h_customEvent h) False = []"
  proof (rule ccontr)
    assume "map_of (subs ?st') (h_customEvent h) \<noteq> None"
    then obtain bk where bk: "map_of (subs ?st') (h_customEvent h) = Some bk" by auto
    then have "(h_customEvent h, bk) \<in> set (subs ?st')" by (rule map_of_SomeD)
    then have "used (bucket_b bk) \<or> used (bucket_a bk)"
      using inv by (auto simp: no_empty_bucket_def)
    then show False using that bk
      by (auto simp: phase_list_def used_def split: option.splits)
  qed
  show ?thesis
    using assms inv gone
    by (simp add: detach_sub_handle_def subs_removeSubscriber phase_list_remove_entry_same
        phase_list_remove_entry_opposite remove_entry_other no_empty_remove_entry
        no_empty_removeSubscribers no_empty_detachAll no_empty_detach_handle no_empty_run_timers
        detach_def)
qed

theorem detach_removes_matching_records_witness:
  "no_empty_bucket (subs one_subscription)
   \<and> phase_list (subs one_subscription) ''red:save'' True = [red_save_record]
   \<and> no_empty_bucket (subs (detach_sub_handle red_save_handle one_subscription))
   \<and> phase_list (subs (detach_sub_handle red_save_handle one_subscription)) ''red:save'' True = []
   \<and> map_of (subs (detach_sub_handle red_save_handle one_subscription)) ''red:save'' = None"
proof -
  have sub1: "subs one_subscription =
      [(''red:save'', \<lparr>bucket_b = Some [red_save_record], bucket_a = None\<rparr>)]"
    by (simp add: one_subscription_def registry_defs topic_simps red_save_record_def)
  have h: "no_empty_bucket (subs one_subscription)"
    by (simp add: sub1 no_empty_bucket_def used_def)
  have m: "matches_sub (Some redObject) (Some (Plain noop)) red_save_record"
    by (simp add: matches_sub_def red_save_record_def)
  show ?thesis
    using h detach_removes_matching_records [OF h, of red_save_handle]
    by (simp add: sub1 phase_list_def red_save_handle_def m)
qed

text \<open>
  C7 as stated fails: after \<open>Event.before('red:save', noop, redObject)\<close> was called twice,
  the sequence holds two records, and the \<open>detach()\<close> of the first handle removes both.
\<close>

theorem detach_removes_both_equal_records:
  "fst (Event_before (One ''red:save'') noop (Some redObject) None False init_state)
     = Handle (Single red_save_handle)
   \<and> phase_list (subs two_equal_subscriptions) ''red:save'' True
       = [red_save_record, red_save_record]
   \<and> phase_list (subs (detach_sub_handle red_save_handle two_equal_subscriptions))
       ''red:save'' True = []"
  by code_simp

text \<open>
  C9 (a defect of the code). \<open>blueObject.before('save', noop)\<close> registers the record
  under \<open>UI:save\<close>. \<open>detach(blueObject, 'save')\<close> computes the emitter name \<open>UI\<close> and
  then passes the string \<open>save\<close> itself to \<open>_removeSubscriber\<close>, which finds no entry
  \<open>_subs['save']\<close>: the record is still registered. Detaching with the qualified
  \<open>UI:save\<close> does remove it.
\<close>

theorem bare_name_detach_leaves_record:
  "fst bare_subscription
     = Handle (Single \<lparr>h_listener = Some blueObject, h_before = True,
                       h_customEvent = ''UI:save'', h_callback = Plain noop\<rparr>)
   \<and> phase_list (subs (snd bare_subscription)) ''UI:save'' True
       = [\<lparr>sub_o = blueObject, sub_cb = Plain noop, sub_f = None, sub_s = False\<rparr>]
   \<and> phase_list (subs (snd (detach (Some blueObject) ''save'' (snd bare_subscription))))
       ''UI:save'' True
       = [\<lparr>sub_o = blueObject, sub_cb = Plain noop, sub_f = None, sub_s = False\<rparr>]
   \<and> subs (snd (detach (Some blueObject) ''UI:save'' (snd bare_subscription))) = []"
  by code_simp

section \<open>Properties of the notifiers\<close>

lemma new_trace_append [simp]: "trace st' = trace st @ xs \<Longrightarrow> new_trace st st' = xs"
  by (simp add: new_trace_def)

text \<open>The four checks on a concrete topic, spelled out.\<close>

lemma trace_notifier_check:
  "trace (notifier_check key t item st) = trace st @ fired st key t item"
  by (simp add: notifier_check_def fired_def console_def Let_def split: option.splits)

lemma notifiers_notifier_check:
  "notifiers (notifier_check key t item st) =
     (if fires_once st key then (notifiers st)(t := None) else notifiers st)"
  by (simp add: notifier_check_def fires_once_def console_def Let_def split: option.splits)

lemma fired_other:
  "key \<noteq> t \<Longrightarrow> notifiers st' = (if c then (notifiers st)(t := None) else notifiers st)
   \<Longrightarrow> fired st' key = fired st key"
  by (auto simp: fired_def fun_eq_iff)

lemma fires_once_other:
  "key \<noteq> t \<Longrightarrow> notifiers st' = (if c then (notifiers st)(t := None) else notifiers st)
   \<Longrightarrow> fires_once st' key = fires_once st key"
  by (auto simp: fires_once_def)

lemma run_notifiers_concrete:
  assumes "is_name em" "is_name ev"
  defines "t \<equiv> em @ CHR '':'' # ev"
  shows "trace (run_notifiers t item st) =
           trace st @ fired st t t item @ fired st (em @ '':*'') t item
             @ fired st (''*:'' @ ev) t item @ fired st ''*:*'' t item"
    and "notifiers (run_notifiers t item st) =
           (if fires_once st t \<or> fires_once st (em @ '':*'') \<or> fires_once st (''*:'' @ ev)
               \<or> fires_once st ''*:*''
            then (notifiers st)(t := None) else notifiers st)"
proof -
  define k2 where "k2 = em @ '':*''"
  define k3 where "k3 = ''*:'' @ ev"
  define k4 where "k4 = ''*:*''"
  have d: "k2 \<noteq> t" "k3 \<noteq> t" "k4 \<noteq> t"
    using concrete_keys_distinct[OF assms(1,2)] by (simp_all add: k2_def k3_def k4_def t_def)
  define st1 where "st1 = notifier_check t t item st"
  define st2 where "st2 = notifier_check k2 t item st1"
  define st3 where "st3 = notifier_check k3 t item st2"
  define st4 where "st4 = notifier_check k4 t item st3"
  have "replace_eventname t = k2" "replace_emittername t = k3" "WILDCARD_WILDCARD = k4"
    by (simp_all add: t_def k2_def k3_def k4_def replace_eventname_concrete[OF assms(1,2)]
        replace_emittername_concrete[OF assms(1)] WILDCARD_WILDCARD_def)
  then have r: "run_notifiers t item st = st4"
    using d by (simp add: run_notifiers_def Let_def st1_def st2_def st3_def st4_def)
  have n1: "notifiers st1 = (if fires_once st t then (notifiers st)(t := None) else notifiers st)"
    by (simp add: st1_def notifiers_notifier_check)
  have f1: "fired st1 k2 = fired st k2" "fires_once st1 k2 = fires_once st k2"
    using d fired_other[OF _ n1] fires_once_other[OF _ n1] by auto
  have n2: "notifiers st2 = (if fires_once st t \<or> fires_once st k2
                             then (notifiers st)(t := None) else notifiers st)"
    by (simp add: st2_def notifiers_notifier_check n1 f1)
  have f2: "fired st2 k3 = fired st k3" "fires_once st2 k3 = fires_once st k3"
    using d fired_other[OF _ n2] fires_once_other[OF _ n2] by auto
  have n3: "notifiers st3 = (if fires_once st t \<or> fires_once st k2 \<or> fires_once st k3
                             then (notifiers st)(t := None) else notifiers st)"
    by (simp add: st3_def notifiers_notifier_check n2 f2)
  have f3: "fired st3 k4 = fired st k4" "fires_once st3 k4 = fires_once st k4"
    using d fired_other[OF _ n3] fires_once_other[OF _ n3] by auto
  have tr: "trace st4 = trace st @ fired st t t item @ fired st k2 t item
             @ fired st k3 t item @ fired st k4 t item"
    by (simp add: st4_def st3_def[symmetric] trace_notifier_check f3)
       (simp add: st3_def st2_def[symmetric] trace_notifier_check f2,
        simp add: st2_def st1_def[symmetric] trace_notifier_check f1,
        simp add: st1_def trace_notifier_check)
  have nt: "notifiers st4 = (if fires_once st t \<or> fires_once st k2 \<or> fires_once st k3
                                \<or> fires_once st k4
                             then (notifiers st)(t := None) else notifiers st)"
    by (simp add: st4_def notifiers_notifier_check n3 f3)
  show "trace (run_notifiers t item st) =
           trace st @ fired st t t item @ fired st (em @ '':*'') t item
             @ fired st (''*:'' @ ev) t item @ fired st ''*:*'' t item"
    using tr unfolding r k2_def k3_def k4_def .
  show "notifiers (run_notifiers t item st) =
           (if fires_once st t \<or> fires_once st (em @ '':*'') \<or> fires_once st (''*:'' @ ev)
               \<or> fires_once st ''*:*''
            then (notifiers st)(t := None) else notifiers st)"
    using nt unfolding r k2_def k3_def k4_def .
qed

lemma filter_fired:
  "filter (notified_under k) (fired st k' t item) = (if k = k' then fired st k' t item else [])"
  by (auto simp: fired_def notified_under_def split: option.splits)

lemma trace_ensure_bucket [simp]: "trace (ensure_bucket b c st) = trace st"
  by (simp add: ensure_bucket_def Let_def)

lemma notifiers_ensure_bucket [simp]: "notifiers (ensure_bucket b c st) = notifiers st"
  by (simp add: ensure_bucket_def Let_def)

lemma trace_insert_item [simp]: "trace (insert_item b c p item st) = trace st"
  by (simp add: insert_item_def Let_def split: option.splits)

lemma notifiers_insert_item [simp]: "notifiers (insert_item b c p item st) = notifiers st"
  by (simp add: insert_item_def Let_def split: option.splits)

lemma fired_ensure_bucket [simp]: "fired (ensure_bucket b c st) = fired st"
  by (simp add: fired_def fun_eq_iff)

lemma fires_once_ensure_bucket [simp]: "fires_once (ensure_bucket b c st) = fires_once st"
  by (simp add: fires_once_def fun_eq_iff)

lemma addSubscriber_concrete:
  assumes "is_name em" "is_name ev" "em \<noteq> ''this''"
  shows "snd (addSubscriber listener bef (em @ CHR '':'' # ev) cb flt prepend st) =
           insert_item bef (em @ CHR '':'' # ev) prepend
             \<lparr>sub_o = (case listener of None \<Rightarrow> Event_instance | Some l \<Rightarrow> l),
              sub_cb = cb, sub_f = flt, sub_s = False\<rparr>
             (run_notifiers (em @ CHR '':'' # ev)
                \<lparr>sub_o = (case listener of None \<Rightarrow> Event_instance | Some l \<Rightarrow> l),
                 sub_cb = cb, sub_f = flt, sub_s = False\<rparr>
                (ensure_bucket bef (em @ CHR '':'' # ev) st))"
  using assms(3) is_name_not_wild[OF assms(1)] is_name_not_wild[OF assms(2)]
  by (simp add: addSubscriber_def match_wildcard_concrete[OF assms(1,2)] register_item_def Let_def)

text \<open>
  C4, as the code has it. Let \<open>t = em:ev\<close> be a concrete topic (\<open>em\<close> not the reserved
  \<open>this\<close>) and consider one call of \<open>_addSubscriber\<close> for \<open>t\<close>.
  A \<open>once\<close> notifier registered on the literal topic \<open>t\<close> is called exactly once, with
  \<open>(t, item)\<close>, and its record is removed, and when no notifier is registered under \<open>t\<close>
  none is called under that key: a later subscription to \<open>t\<close> does not call it again.
  A notifier registered on another key is never removed by a subscription, whatever its
  \<open>once\<close> flag; so a notifier on \<open>em:*\<close>, \<open>*:ev\<close> or \<open>*:*\<close> is called exactly once
  in every subscription to a concrete topic that matches it.
\<close>

theorem once_notifier_by_kind:
  assumes "match_customevent t = Some (em, ev)" and "em \<noteq> ''this''"
  shows "(\<forall>n. notifiers st t = Some n \<and> truthy (n_r n) \<longrightarrow>
            filter (notified_under t)
              (new_trace st (snd (addSubscriber listener bef t cb flt prepend st)))
              = [Notified t (n_cb n) (n_o n) t
                   \<lparr>sub_o = (case listener of None \<Rightarrow> Event_instance | Some l \<Rightarrow> l),
                    sub_cb = cb, sub_f = flt, sub_s = False\<rparr>]
            \<and> notifiers (snd (addSubscriber listener bef t cb flt prepend st)) t = None)
       \<and> (notifiers st t = None \<longrightarrow>
            filter (notified_under t)
              (new_trace st (snd (addSubscriber listener bef t cb flt prepend st))) = [])
       \<and> (\<forall>k. k \<noteq> t \<longrightarrow>
            notifiers (snd (addSubscriber listener bef t cb flt prepend st)) k = notifiers st k)
       \<and> (\<forall>k n. k \<in> {em @ '':*'', ''*:'' @ ev, ''*:*''} \<and> notifiers st k = Some n \<longrightarrow>
            filter (notified_under k)
              (new_trace st (snd (addSubscriber listener bef t cb flt prepend st)))
              = [Notified k (n_cb n) (n_o n) t
                   \<lparr>sub_o = (case listener of None \<Rightarrow> Event_instance | Some l \<Rightarrow> l),
                    sub_cb = cb, sub_f = flt, sub_s = False\<rparr>])"
proof -
  from assms(1) have t: "t = em @ CHR '':'' # ev" and em: "is_name em" and ev: "is_name ev"
    using match_customevent_split by blast+
  define item where "item = \<lparr>sub_o = (case listener of None \<Rightarrow> Event_instance | Some l \<Rightarrow> l),
                    sub_cb = cb, sub_f = flt, sub_s = False\<rparr>"
  define st' where "st' = snd (addSubscriber listener bef t cb flt prepend st)"
  have st': "st' = insert_item bef t prepend item (run_notifiers t item (ensure_bucket bef t st))"
    unfolding st'_def item_def t by (rule addSubscriber_concrete[OF em ev assms(2)])
  have tr: "new_trace st st' = fired st t t item @ fired st (em @ '':*'') t item
             @ fired st (''*:'' @ ev) t item @ fired st ''*:*'' t item"
    using run_notifiers_concrete(1)[OF em ev, of item "ensure_bucket bef t st"]
    by (simp add: st' t)
  have nt: "notifiers st' =
           (if fires_once st t \<or> fires_once st (em @ '':*'') \<or> fires_once st (''*:'' @ ev)
               \<or> fires_once st ''*:*''
            then (notifiers st)(t := None) else notifiers st)"
    using run_notifiers_concrete(2)[OF em ev, of item "ensure_bucket bef t st"]
    by (simp add: st' t)
  note d = concrete_keys_distinct[OF em ev, folded t]
  have filt: "filter (notified_under k) (new_trace st st') =
       (if k = t then fired st t t item else [])
       @ (if k = em @ '':*'' then fired st (em @ '':*'') t item else [])
       @ (if k = ''*:'' @ ev then fired st (''*:'' @ ev) t item else [])
       @ (if k = ''*:*'' then fired st ''*:*'' t item else [])" for k
    unfolding tr filter_append filter_fired by simp
  have 1: "filter (notified_under t) (new_trace st st') = [Notified t (n_cb n) (n_o n) t item]
           \<and> notifiers st' t = None" if "notifiers st t = Some n" "truthy (n_r n)" for n
    using that d by (simp add: filt nt fired_def fires_once_def)
  have 2: "filter (notified_under t) (new_trace st st') = []" if "notifiers st t = None"
    using that d by (simp add: filt fired_def)
  have 3: "notifiers st' k = notifiers st k" if "k \<noteq> t" for k
    using that by (simp add: nt)
  have 4: "filter (notified_under k) (new_trace st st') = [Notified k (n_cb n) (n_o n) t item]"
    if "k \<in> {em @ '':*'', ''*:'' @ ev, ''*:*''}" "notifiers st k = Some n" for k n
    using that d by (auto simp: filt fired_def)
  show ?thesis
    using 1 2 3 4 unfolding st'_def item_def by blast
qed

theorem once_notifier_by_kind_witness:
  "match_customevent ''red:save'' = Some (''red'', ''save'') \<and> ''red'' \<noteq> ''this''
   \<and> notifiers literal_once_notifier ''red:save''
       = Some \<lparr>n_cb = 7, n_o = JObj Event_instance, n_r = JBool True\<rparr>
   \<and> notifiers (snd (addSubscriber None True ''red:save'' (Plain noop) None False
                       literal_once_notifier)) ''red:save'' = None
   \<and> notifiers (snd (addSubscriber None True ''red:save'' (Plain noop) None False
                       literal_once_notifier)) ''red:*''
       = Some \<lparr>n_cb = 7, n_o = JObj Event_instance, n_r = JBool True\<rparr>"
proof -
  have h1: "match_customevent ''red:save'' = Some (''red'', ''save'')" by (rule parse_red_save)
  have h2: "''red'' \<noteq> ''this''" by simp
  have n: "notifiers literal_once_notifier ''red:save''
       = Some \<lparr>n_cb = 7, n_o = JObj Event_instance, n_r = JBool True\<rparr>"
     "notifiers literal_once_notifier ''red:*''
       = Some \<lparr>n_cb = 7, n_o = JObj Event_instance, n_r = JBool True\<rparr>"
    by (simp_all add: literal_once_notifier_def)
  show ?thesis
    using h1 h2 n once_notifier_by_kind [OF h1 h2, of literal_once_notifier None True "Plain noop" None False]
    by simp
qed

text \<open>
  C4 as stated fails for a wildcard pattern: after \<open>Event.notify('red:*', cb7, Event, true)\<close>,
  subscribing to \<open>red:save\<close> and then to \<open>red:create\<close> calls the notifier twice, and its
  record is still registered (the repository's test \<open>check notify() wildcard once\<close>
  expects these two calls).
\<close>

theorem wildcard_once_notifier_fires_again:
  "filter (notified_under ''red:*'')
     (trace (snd (Event_before (One ''red:create'') noop None None False
        (snd (Event_before (One ''red:save'') noop None None False wildcard_once_notifier)))))
     = [Notified ''red:*'' 7 (JObj Event_instance) ''red:save''
          \<lparr>sub_o = Event_instance, sub_cb = Plain noop, sub_f = None, sub_s = False\<rparr>,
        Notified ''red:*'' 7 (JObj Event_instance) ''red:create''
          \<lparr>sub_o = Event_instance, sub_cb = Plain noop, sub_f = None, sub_s = False\<rparr>]
   \<and> notifiers (snd (Event_before (One ''red:create'') noop None None False
        (snd (Event_before (One ''red:save'') noop None None False wildcard_once_notifier))))
        ''red:*''
     = Some \<lparr>n_cb = 7, n_o = JObj Event_instance, n_r = JBool True\<rparr>"
  by code_simp

section \<open>Properties of the payload merge\<close>

lemma map_of_append_new:
  "k \<notin> set (map fst xs) \<Longrightarrow> map_of (xs @ [(k, d)]) k' = (if k' = k then Some d else map_of xs k')"
  by (induction xs) auto

lemma map_of_None_iff: "(map_of xs k = None) = (k \<notin> set (map fst xs))"
  by (simp add: map_of_eq_None_iff)

lemma assign_new:
  "k \<notin> set (map fst (e_props e)) \<Longrightarrow>
   map_of (e_props (assign e k v)) k' = (if k' = k then Some (Data v True True True) else map_of (e_props e) k')"
  using map_of_None_iff[of "e_props e" k]
  by (auto simp: assign_def map_add_def split: option.splits)

lemma defineProperty_props:
  "map_of (e_props (defineProperty e k d)) k' = (if k' = k then Some d else map_of (e_props e) k')"
  by (simp add: defineProperty_def update_conv')

lemma merge_key_props:
  "map_of (e_props (merge_key gr proto p key e)) k =
     (if k = key \<and> \<not> has_property proto e key then Some (merged_slot gr p key)
      else map_of (e_props e) k)"
proof (cases "has_property proto e key")
  case True
  then show ?thesis by (simp add: merge_key_def)
next
  case False
  then have nk: "key \<notin> set (map fst (e_props e))" by (simp add: has_property_def)
  show ?thesis using False
    by (auto simp: merge_key_def merged_slot_def assign_new[OF nk] defineProperty_props
        split: option.splits descriptor.splits)
qed

lemma merge_key_fixed:
  "e_target (merge_key gr proto p key e) = e_target e"
  "e_type (merge_key gr proto p key e) = e_type e"
  "e_emitter (merge_key gr proto p key e) = e_emitter e"
  "e_status (merge_key gr proto p key e) = e_status e"
  by (auto simp: merge_key_def assign_def defineProperty_def split: option.splits descriptor.splits)

lemma has_property_iff:
  "has_property proto e k =
     (k \<in> set [''target'', ''type'', ''emitter'', ''status''] \<or> map_of (e_props e) k \<noteq> None \<or> k \<in> set proto)"
  by (simp add: has_property_def map_of_None_iff)

lemma has_property_merge_key:
  "has_property proto (merge_key gr proto p key e) k = (has_property proto e k \<or> k = key)"
  by (auto simp: has_property_iff merge_key_props)

lemma merge_keys_props:
  "map_of (e_props (merge_keys gr proto p keys e)) k =
     (if k \<in> set keys \<and> \<not> has_property proto e k then Some (merged_slot gr p k)
      else map_of (e_props e) k)"
proof (induction keys arbitrary: e)
  case Nil
  then show ?case by simp
next
  case (Cons key keys)
  show ?case
    by (auto simp: Cons.IH merge_key_props has_property_merge_key)
qed

lemma merge_keys_fixed:
  "e_target (merge_keys gr proto p keys e) = e_target e
   \<and> e_type (merge_keys gr proto p keys e) = e_type e
   \<and> e_emitter (merge_keys gr proto p keys e) = e_emitter e
   \<and> e_status (merge_keys gr proto p keys e) = e_status e"
  by (induction keys arbitrary: e) (simp_all add: merge_key_fixed)

lemma merged_slot_not_accessor: "\<not> is_accessor (merged_slot gr p k)"
  by (simp add: merged_slot_def is_accessor_def split: option.splits descriptor.splits)

text \<open>
  C5, as the code has it. The merge visits the enumerable properties of the payload.
  A name that the event object already has (one of its four fields, a property created
  earlier, or a name found through its prototype chain) keeps what it had: the payload
  never overwrites it. Every other visited name becomes an own property of the event
  object: a writable own data property of the payload with its original descriptor, and
  any other property (an accessor, a non-writable or an inherited one) as a new writable,
  enumerable, configurable data property holding the value that \<open>payload[key]\<close> gave during
  the merge. No name outside the visited ones is added, and the merge never installs an
  accessor: a getter of the payload is read once and not carried over.
\<close>

theorem payload_merge_by_descriptor:
  "(\<forall>k. has_property proto e k \<longrightarrow>
        map_of (e_props (merge_payload gr proto (Some p) e)) k = map_of (e_props e) k)
   \<and> e_target (merge_payload gr proto (Some p) e) = e_target e
   \<and> e_type (merge_payload gr proto (Some p) e) = e_type e
   \<and> e_emitter (merge_payload gr proto (Some p) e) = e_emitter e
   \<and> e_status (merge_payload gr proto (Some p) e) = e_status e
   \<and> (\<forall>k \<in> set (for_in p). \<not> has_property proto e k \<longrightarrow>
        map_of (e_props (merge_payload gr proto (Some p) e)) k = Some (merged_slot gr p k))
   \<and> (\<forall>k. k \<notin> set (for_in p) \<and> \<not> has_property proto e k \<longrightarrow>
        map_of (e_props (merge_payload gr proto (Some p) e)) k = None)
   \<and> (\<forall>k d. map_of (e_props (merge_payload gr proto (Some p) e)) k = Some d \<and> is_accessor d
        \<longrightarrow> map_of (e_props e) k = Some d)"
  using merged_slot_not_accessor[of gr p]
  by (auto simp: merge_payload_def merge_keys_props merge_keys_fixed has_property_iff)

theorem payload_merge_by_descriptor_witness:
  "''total'' \<in> set (for_in getter_payload)
   \<and> \<not> has_property (defaultEventObj init_state) (new_event redObject ''save'' ''red'' None) ''total''
   \<and> has_property (defaultEventObj init_state) (new_event redObject ''save'' ''red'' None) ''type''
   \<and> map_of (e_props (merge_payload (\<lambda>g. JNum 1) (defaultEventObj init_state)
        (Some getter_payload) (new_event redObject ''save'' ''red'' None))) ''total''
       = Some (Data (JNum 1) True True True)
   \<and> map_of (e_props (merge_payload (\<lambda>g. JNum 1) (defaultEventObj init_state)
        (Some getter_payload) (new_event redObject ''save'' ''red'' None))) ''type'' = None
   \<and> e_type (merge_payload (\<lambda>g. JNum 1) (defaultEventObj init_state)
        (Some getter_payload) (new_event redObject ''save'' ''red'' None)) = ''save''"
proof -
  have h1: "''total'' \<in> set (for_in getter_payload)" by code_simp
  have h2: "\<not> has_property (defaultEventObj init_state) (new_event redObject ''save'' ''red'' None) ''total''"
    by code_simp
  have h3: "has_property (defaultEventObj init_state) (new_event redObject ''save'' ''red'' None) ''type''"
    by code_simp
  have m: "merged_slot (\<lambda>g. JNum 1) getter_payload ''total'' = Data (JNum 1) True True True"
    by code_simp
  have n: "map_of (e_props (new_event redObject ''save'' ''red'' None)) ''type'' = None"
          "e_type (new_event redObject ''save'' ''red'' None) = ''save''"
    by (simp_all add: new_event_def)
  note T = payload_merge_by_descriptor [of "defaultEventObj init_state"
        "new_event redObject ''save'' ''red'' None" "\<lambda>g. JNum 1" getter_payload]
  note kept = T [THEN conjunct1, rule_format, OF h3]
  note type_kept = T [THEN conjunct2, THEN conjunct2, THEN conjunct1]
  note merged = T [THEN conjunct2, THEN conjunct2, THEN conjunct2, THEN conjunct2,
      THEN conjunct2, THEN conjunct1, rule_format, OF h1 h2]
  show ?thesis
    using h1 h2 h3 kept type_kept merged unfolding m n by simp
qed

text \<open>
  C5 as stated fails for an accessor property: the source tests
  \<open>!propDescriptor || !propDescriptor.writable\<close>, an accessor descriptor has no
  \<open>writable\<close>, so the getter \<open>total\<close> is merged by \<open>e[key] = payload[key]\<close>. The event
  object gets a data property with the value 1 that the getter gave then (and \<open>type\<close> is not
  overwritten); when the getter later gives 2, \<open>payload.total\<close> is 2 and \<open>e.total\<close> is
  still 1.
\<close>

theorem payload_getter_is_snapshot:
  "map_option (\<lambda>r. map_option e_props (fst r))
     (emit 0 redObject ''red:save'' (Some getter_payload) getter_state)
     = Some (Some [(''total'', Data (JNum 1) True True True),
                   (''amount'', Data (JNum 3) True True True)])
   \<and> payload_get (\<lambda>g. JNum 2) getter_payload ''total'' = JNum 2
   \<and> map_option (\<lambda>r. map_option (\<lambda>e. get_prop (\<lambda>g. JNum 2) e ''total'') (fst r))
        (emit 0 redObject ''red:save'' (Some getter_payload) getter_state)
     = Some (Some (JNum 1))"
  by code_simp

section \<open>Properties of the dispatch\<close>

lemma frame_refl [simp]: "frame st st"
  by (simp add: frame_def)

lemma frame_trans: "frame a b \<Longrightarrow> frame b c \<Longrightarrow> frame a c"
  by (simp add: frame_def)

lemma frame_console [simp]: "frame st (console x st)"
  by (simp add: frame_def console_def)

lemma trace_console [simp]: "trace (console x st) = trace st @ [x]"
  by (simp add: console_def)

lemma running_console [simp]: "runningEvents (console x st) = runningEvents st"
  by (simp add: console_def)

lemma getterResult_console [simp]: "getterResult (console x st) = getterResult st"
  by (simp add: console_def)

lemma detachedFlag_console [simp]: "detachedFlag (console x st) = detachedFlag st"
  by (simp add: console_def)

lemma replay_Nil [simp]: "replay gr t sg [] e = e"
  by (simp add: replay_def)

lemma replay_Cons [simp]: "replay gr t sg (x # xs) e = replay gr t sg xs (replay_entry gr t sg x e)"
  by (simp add: replay_def)

lemma replay_append [simp]: "replay gr t sg (xs @ ys) e = replay gr t sg ys (replay gr t sg xs e)"
  by (simp add: replay_def)

lemma replay_entry_foreign:
  assumes "t \<in> R" "foreign R x"
  shows "replay_entry gr t sg x e = e"
proof (cases x)
  case (ConsoleWarn m)
  then show ?thesis using assms by (cases m) (auto simp: replay_entry_def foreign_def)
qed (use assms in \<open>auto simp: replay_entry_def foreign_def\<close>)

lemma replay_foreign:
  assumes "t \<in> R" "\<forall>x \<in> set xs. foreign R x"
  shows "replay gr t sg xs e = e"
  using assms(2) by (induction xs arbitrary: e) (simp_all add: replay_entry_foreign[OF assms(1)])

lemma stage_step_refl: "stage_step t sg e st [] e st"
  by (simp add: stage_step_def)

lemma stage_step_trans:
  assumes "stage_step t sg e st n1 e1 st1" "stage_step t sg e1 st1 n2 e2 st2"
  shows "stage_step t sg e st (n1 @ n2) e2 st2"
  using assms by (auto simp: stage_step_def frame_def)

lemma stage_step_frame: "stage_step t sg e st new e' st' \<Longrightarrow> frame st st'"
  by (simp add: stage_step_def)

lemma stage_step_running:
  "stage_step t sg e st new e' st' \<Longrightarrow> runningEvents st' = runningEvents st"
  by (simp add: stage_step_def frame_def)

lemma stage_step_console:
  assumes "own_entry t sg x"
  shows "stage_step t sg e st [x] (replay_entry (getterResult st) t sg x e) (console x st)"
  using assms by (simp add: stage_step_def)

lemma invoked_Nil [simp]: "invoked t sg [] = []"
  by (simp add: invoked_def)

lemma invoked_append [simp]: "invoked t sg (xs @ ys) = invoked t sg xs @ invoked t sg ys"
  by (simp add: invoked_def map_filter_def)

lemma invoked_Cons:
  "invoked t sg (x # xs) =
     (case x of Invoked t' sg' sb \<Rightarrow> if t' = t \<and> sg' = sg then sb # invoked t sg xs else invoked t sg xs
              | _ \<Rightarrow> invoked t sg xs)"
  by (simp add: invoked_def map_filter_def split: log_entry.splits)

lemma invoked_entry [simp]:
  "invoked t sg (Invoked t' sg' sb # xs) =
     (if t' = t \<and> sg' = sg then sb # invoked t sg xs else invoked t sg xs)"
  "invoked t sg (UserCallback t' sg' h f # xs) = invoked t sg xs"
  "invoked t sg (FilterCalled t' sg' sb # xs) = invoked t sg xs"
  "invoked t sg (Api t' sg' a # xs) = invoked t sg xs"
  "invoked t sg (DefaultFnCalled t' f # xs) = invoked t sg xs"
  "invoked t sg (PreventedFnCalled t' f # xs) = invoked t sg xs"
  "invoked t sg (Notified k c ctx t' sb # xs) = invoked t sg xs"
  "invoked t sg (DetachNotified k c ctx t' # xs) = invoked t sg xs"
  "invoked t sg (ConsoleError m # xs) = invoked t sg xs"
  "invoked t sg (ConsoleWarn m # xs) = invoked t sg xs"
  by (simp_all add: invoked_Cons)

lemma invoked_foreign:
  assumes "t \<in> R" "\<forall>x \<in> set xs. foreign R x"
  shows "invoked t sg xs = []"
  using assms(2)
proof (induction xs)
  case Nil
  then show ?case by simp
next
  case (Cons x xs)
  then show ?case using assms(1)
    by (cases x) (auto simp: foreign_def)
qed

lemma run_action_step:
  assumes "well_behaved nested" "t \<in> runningEvents st"
      and "run_action nested x e (console (Api t sg x) st) = Some r"
  shows "\<exists>new. stage_step t sg e st (Api t sg x # new) (fst r) (snd r)
           \<and> (\<forall>y \<in> set new. foreign (runningEvents st) y)"
proof (cases "\<exists>em c p. x = Emit em c p")
  case True
  then obtain em c p where x: "x = Emit em c p" by blast
  from assms(3) obtain r0 where r0: "nested em c p (console (Api t sg x) st) = Some r0"
    and r: "r = (e, snd r0)"
    by (auto simp: run_action_def x split: option.splits)
  from assms(1) r0 have "quiet (console (Api t sg x) st) (snd r0)"
    unfolding well_behaved_def by blast
  then obtain new where fr: "frame (console (Api t sg x) st) (snd r0)"
    and tr: "trace (snd r0) = trace st @ Api t sg x # new"
    and fo: "\<forall>y \<in> set new. foreign (runningEvents st) y"
    by (auto simp: quiet_def)
  have "stage_step t sg e st (Api t sg x # new) e (snd r0)"
    using fr tr fo replay_foreign[OF assms(2) fo]
    by (auto simp: stage_step_def frame_def console_def own_entry_def replay_entry_def
        apply_action_def x)
  then show ?thesis using r fo by auto
next
  case False
  then have r: "r = (apply_action (getterResult st) x e, console (Api t sg x) st)"
    using assms(3) by (cases x) (auto simp: run_action_def)
  have "stage_step t sg e st [Api t sg x] (fst r) (snd r)"
    by (simp add: r stage_step_def own_entry_def replay_entry_def)
  then show ?thesis by auto
qed

lemma run_actions_step:
  assumes "well_behaved nested" "t \<in> runningEvents st"
      and "run_actions nested t sg xs e st = Some r"
  shows "\<exists>new. stage_step t sg e st new (fst r) (snd r) \<and> invoked t sg new = []"
  using assms(2,3)
proof (induction xs arbitrary: e st)
  case Nil
  then have "stage_step t sg e st [] (fst r) (snd r)" by (auto simp: stage_step_refl)
  then show ?case by (intro exI[of _ "[]"]) simp
next
  case (Cons x xs)
  from Cons.prems(2) obtain r1 where r1: "run_action nested x e (console (Api t sg x) st) = Some r1"
    and rest: "run_actions nested t sg xs (fst r1) (snd r1) = Some r"
    by (auto split: option.splits)
  from run_action_step[OF assms(1) Cons.prems(1) r1] obtain n1 where
    s1: "stage_step t sg e st (Api t sg x # n1) (fst r1) (snd r1)"
    and f1: "\<forall>y \<in> set n1. foreign (runningEvents st) y" by blast
  have run1: "t \<in> runningEvents (snd r1)"
    using stage_step_running[OF s1] Cons.prems(1) by simp
  from Cons.IH[OF run1 rest] obtain n2 where
    s2: "stage_step t sg (fst r1) (snd r1) n2 (fst r) (snd r)" and i2: "invoked t sg n2 = []"
    by blast
  have "invoked t sg ((Api t sg x # n1) @ n2) = []"
    using invoked_foreign[OF Cons.prems(1) f1] i2 by simp
  then show ?case using stage_step_trans[OF s1 s2] by blast
qed

lemma stage_step_flags:
  "stage_step t sg e st new e' st' \<Longrightarrow>
   stage_step t sg e st new e' (st'\<lparr>detachedFlag := a, timers := b\<rparr>)"
  by (simp add: stage_step_def frame_def)

lemma apply_action_fixed [simp]:
  "e_type (apply_action gr a e) = e_type e"
  "e_emitter (apply_action gr a e) = e_emitter e"
  "e_target (apply_action gr a e) = e_target e"
  by (cases a; simp add: apply_action_def halt_def preventDefault_def preventDefaultContinue_def
      assign_def split: option.splits descriptor.splits)+

lemma assign_fixed [simp]:
  "e_type (assign e k v) = e_type e"
  "e_emitter (assign e k v) = e_emitter e"
  "e_target (assign e k v) = e_target e"
  "e_status (assign e k v) = e_status e"
  by (simp_all add: assign_def split: option.splits descriptor.splits)

lemma replay_entry_fixed [simp]:
  "e_type (replay_entry gr t sg x e) = e_type e"
  "e_emitter (replay_entry gr t sg x e) = e_emitter e"
  "e_target (replay_entry gr t sg x e) = e_target e"
  by (cases x; simp add: replay_entry_def)+

lemma replay_fixed [simp]:
  "e_type (replay gr t sg xs e) = e_type e"
  "e_emitter (replay gr t sg xs e) = e_emitter e"
  "e_target (replay gr t sg xs e) = e_target e"
  by (induction xs arbitrary: e; simp)+

lemma event_topic_replay [simp]: "event_topic (replay gr t sg xs e) = event_topic e"
  by (simp add: event_topic_def)

lemma stage_step_topic:
  "stage_step t sg e st new e' st' \<Longrightarrow> event_topic e' = event_topic e"
  by (simp add: stage_step_def)

lemma call_callback_step:
  assumes "well_behaved nested" "t \<in> runningEvents st"
      and "call_callback nested t sg c e st = Some r"
  shows "\<exists>new. stage_step t sg e st new (fst r) (snd r) \<and> invoked t sg new = []"
proof (cases c)
  case (Plain f)
  then show ?thesis using run_actions_step[OF assms(1,2)] assms(3)
    by (simp add: call_callback_def)
next
  case (Wrapper h f)
  show ?thesis
  proof (cases "h \<in> detachedFlag st")
    case True
    then have "r = (e, st\<lparr>detachedFlag := insert h (detachedFlag st), timers := timers st @ [h]\<rparr>)"
      using assms(3) Wrapper by (auto simp: call_callback_def)
    then have "stage_step t sg e st [] (fst r) (snd r)"
      using stage_step_flags[OF stage_step_refl] by simp
    then show ?thesis by (intro exI[of _ "[]"]) simp
  next
    case False
    let ?u = "UserCallback t sg h f"
    from assms(3) Wrapper False obtain r0 where
      r0: "run_actions nested t sg (body f) e (console ?u st) = Some r0"
      and r: "r = (fst r0, (snd r0)\<lparr>detachedFlag := insert h (detachedFlag (snd r0)),
                                    timers := timers (snd r0) @ [h]\<rparr>)"
      by (auto simp: call_callback_def split: option.splits)
    have s0: "stage_step t sg e st [?u] e (console ?u st)"
      using stage_step_console[of t sg ?u e st] by (simp add: own_entry_def replay_entry_def)
    have "t \<in> runningEvents (console ?u st)" using assms(2) by simp
    from run_actions_step[OF assms(1) this r0] obtain n where
      s1: "stage_step t sg e (console ?u st) n (fst r0) (snd r0)" and i: "invoked t sg n = []"
      by blast
    have "stage_step t sg e st ([?u] @ n) (fst r) (snd r)"
      using stage_step_flags[OF stage_step_trans[OF s0 s1]] by (simp add: r)
    moreover have "invoked t sg ([?u] @ n) = []" using i by simp
    ultimately show ?thesis by blast
  qed
qed

lemma passes_filter_step:
  assumes "well_behaved nested" "t \<in> runningEvents st"
      and "passes_filter nested t sg cf sb e st = Some pf"
  shows "\<exists>new. stage_step t sg e st new (fst (snd pf)) (snd (snd pf)) \<and> invoked t sg new = []"
proof (cases "cf \<and> sub_f sb \<noteq> None")
  case False
  then have "pf = (True, e, st)" using assms(3)
    by (auto simp: passes_filter_def split: if_splits option.splits)
  then have "stage_step t sg e st [] (fst (snd pf)) (snd (snd pf))" by (simp add: stage_step_refl)
  then show ?thesis by (intro exI[of _ "[]"]) simp
next
  case True
  then obtain ff where ff: "sub_f sb = Some ff" and cf: cf by auto
  let ?u = "FilterCalled t sg sb"
  from assms(3) ff cf obtain r0 where
    r0: "run_actions nested t sg (body ff) e (console ?u st) = Some r0"
    and pf: "pf = (truthy (ret ff), fst r0, snd r0)"
    by (auto simp: passes_filter_def split: option.splits)
  have s0: "stage_step t sg e st [?u] e (console ?u st)"
    using stage_step_console[of t sg ?u e st] by (simp add: own_entry_def replay_entry_def)
  have "t \<in> runningEvents (console ?u st)" using assms(2) by simp
  from run_actions_step[OF assms(1) this r0] obtain n where
    s1: "stage_step t sg e (console ?u st) n (fst r0) (snd r0)" and i: "invoked t sg n = []"
    by blast
  have "stage_step t sg e st ([?u] @ n) (fst (snd pf)) (snd (snd pf))"
    using stage_step_trans[OF s0 s1] by (simp add: pf)
  moreover have "invoked t sg ([?u] @ n) = []" using i by simp
  ultimately show ?thesis by blast
qed

lemma unsilence_step:
  assumes "event_topic e = t"
  shows "\<exists>new. stage_step t sg e st new (fst (unsilence e st)) (snd (unsilence e st))
           \<and> invoked t sg new = []"
proof (cases "s_unSilencable (e_status e) \<and> truthy (get_prop (getterResult st) e ''silent'')")
  case True
  let ?u = "ConsoleWarn (CannotSilence t)"
  have "unsilence e st = (assign e ''silent'' (JBool False), console ?u st)"
    using True assms by (simp add: unsilence_def)
  moreover have "stage_step t sg e st [?u] (assign e ''silent'' (JBool False)) (console ?u st)"
    using stage_step_console[of t sg ?u e st] by (simp add: own_entry_def replay_entry_def)
  moreover have "invoked t sg [?u] = []" by simp
  ultimately show ?thesis by (intro exI[of _ "[?u]"]) simp
next
  case False
  then have "unsilence e st = (e, st)" by (auto simp: unsilence_def)
  then show ?thesis using stage_step_refl[of t sg e st] by (intro exI[of _ "[]"]) simp
qed

lemma invoke_one_step:
  assumes "well_behaved nested" "t \<in> runningEvents st" "event_topic e = t"
      and "invoke_one nested t sg cf sb e st = Some r"
  shows "\<exists>new. stage_step t sg e st new (fst r) (snd r) \<and> subseq (invoked t sg new) [sb]"
proof -
  from assms(4) obtain pf r1 where
    pf: "passes_filter nested t sg cf sb e st = Some pf"
    and r1: "(if (\<not> sub_s sb \<or> JObj (sub_o sb) = e_target e) \<and> fst pf
              then call_callback nested t sg (sub_cb sb) (fst (snd pf))
                     (console (Invoked t sg sb) (snd (snd pf)))
              else Some (snd pf)) = Some r1"
    and r: "r = unsilence (fst r1) (snd r1)"
    by (auto simp: invoke_one_def Let_def split: option.splits)
  from passes_filter_step[OF assms(1,2) pf] obtain n0 where
    s0: "stage_step t sg e st n0 (fst (snd pf)) (snd (snd pf))" and i0: "invoked t sg n0 = []"
    by blast
  have run0: "t \<in> runningEvents (snd (snd pf))"
    using stage_step_running[OF s0] assms(2) by simp
  have "\<exists>n1. stage_step t sg (fst (snd pf)) (snd (snd pf)) n1 (fst r1) (snd r1)
           \<and> subseq (invoked t sg n1) [sb]"
  proof (cases "(\<not> sub_s sb \<or> JObj (sub_o sb) = e_target e) \<and> fst pf")
    case True
    let ?u = "Invoked t sg sb"
    from True r1 have cc: "call_callback nested t sg (sub_cb sb) (fst (snd pf))
                     (console ?u (snd (snd pf))) = Some r1" by (auto split: if_splits)
    have sa: "stage_step t sg (fst (snd pf)) (snd (snd pf)) [?u] (fst (snd pf)) (console ?u (snd (snd pf)))"
      using stage_step_console[of t sg ?u "fst (snd pf)" "snd (snd pf)"]
      by (simp add: own_entry_def replay_entry_def)
    have "t \<in> runningEvents (console ?u (snd (snd pf)))" using run0 by simp
    from call_callback_step[OF assms(1) this cc] obtain n where
      sb: "stage_step t sg (fst (snd pf)) (console ?u (snd (snd pf))) n (fst r1) (snd r1)"
      and i: "invoked t sg n = []" by blast
    have "invoked t sg ([?u] @ n) = [sb]" using i by simp
    then show ?thesis using stage_step_trans[OF sa sb] by (intro exI[of _ "[?u] @ n"]) simp
  next
    case False
    then have "r1 = snd pf" using r1 by (auto split: if_splits)
    then show ?thesis using stage_step_refl[of t sg "fst (snd pf)" "snd (snd pf)"]
      by (intro exI[of _ "[]"]) simp
  qed
  then obtain n1 where
    s1: "stage_step t sg (fst (snd pf)) (snd (snd pf)) n1 (fst r1) (snd r1)"
    and i1: "subseq (invoked t sg n1) [sb]" by blast
  have top1: "event_topic (fst r1) = t"
    using stage_step_topic[OF s1] stage_step_topic[OF s0] assms(3) by simp
  from unsilence_step[OF top1, of sg "snd r1"] obtain n2 where
    s2: "stage_step t sg (fst r1) (snd r1) n2 (fst r) (snd r)" and i2: "invoked t sg n2 = []"
    unfolding r by blast
  have "stage_step t sg e st (n0 @ n1 @ n2) (fst r) (snd r)"
    using stage_step_trans[OF s0 stage_step_trans[OF s1 s2]] .
  moreover have "subseq (invoked t sg (n0 @ n1 @ n2)) [sb]" using i0 i1 i2 by simp
  ultimately show ?thesis by blast
qed

lemma some_loop_step:
  assumes "well_behaved nested" "t \<in> runningEvents st" "event_topic e = t"
      and "some_loop nested t cf bef l e st = Some r"
  shows "\<exists>new. stage_step t (stage_of bef) e st new (fst r) (snd r)
           \<and> subseq (invoked t (stage_of bef) new) l"
  using assms(2,3,4)
proof (induction l arbitrary: e st)
  case Nil
  then have "stage_step t (stage_of bef) e st [] (fst r) (snd r)" by (auto simp: stage_step_refl)
  then show ?case by (intro exI[of _ "[]"]) simp
next
  case (Cons sb l)
  from Cons.prems(3) obtain r1 where
    r1: "invoke_one nested t (stage_of bef) cf sb e st = Some r1"
    and rest: "(if truthy (get_prop (getterResult (snd r1)) (fst r1) ''silent'')
                   \<or> (bef \<and> truthy (s_halted (e_status (fst r1))))
                then Some r1
                else some_loop nested t cf bef l (fst r1) (snd r1)) = Some r"
    by (auto split: option.splits)
  from invoke_one_step[OF assms(1) Cons.prems(1,2) r1] obtain n1 where
    s1: "stage_step t (stage_of bef) e st n1 (fst r1) (snd r1)"
    and i1: "subseq (invoked t (stage_of bef) n1) [sb]" by blast
  have "\<exists>n2. stage_step t (stage_of bef) (fst r1) (snd r1) n2 (fst r) (snd r)
           \<and> subseq (invoked t (stage_of bef) n2) l"
  proof (cases "truthy (get_prop (getterResult (snd r1)) (fst r1) ''silent'')
                   \<or> (bef \<and> truthy (s_halted (e_status (fst r1))))")
    case True
    then have "r = r1" using rest by (auto split: if_splits)
    then show ?thesis using stage_step_refl[of t "stage_of bef" "fst r1" "snd r1"]
      by (intro exI[of _ "[]"]) simp
  next
    case False
    then have sl: "some_loop nested t cf bef l (fst r1) (snd r1) = Some r"
      using rest by (auto split: if_splits)
    have "t \<in> runningEvents (snd r1)" using stage_step_running[OF s1] Cons.prems(1) by simp
    moreover have "event_topic (fst r1) = t" using stage_step_topic[OF s1] Cons.prems(2) by simp
    ultimately show ?thesis using Cons.IH sl by blast
  qed
  then obtain n2 where
    s2: "stage_step t (stage_of bef) (fst r1) (snd r1) n2 (fst r) (snd r)"
    and i2: "subseq (invoked t (stage_of bef) n2) l" by blast
  have "subseq (invoked t (stage_of bef) (n1 @ n2)) ([sb] @ l)"
    using list_emb_append_mono[OF i1 i2] by simp
  then show ?case using stage_step_trans[OF s1 s2] by (intro exI[of _ "n1 @ n2"]) simp
qed

lemma invokeSubs_step:
  assumes "well_behaved nested" "t \<in> runningEvents st" "event_topic e = t"
      and "invokeSubs nested t cf bef subscribers e st = Some r"
  shows "\<exists>new. stage_step t (stage_of bef) e st new (fst r) (snd r)
           \<and> subseq (invoked t (stage_of bef) new) (bucket_list bef subscribers)"
proof (cases "invokeSubs nested t cf bef subscribers e st = Some (e, st)")
  case True
  then have "r = (e, st)" using assms(4) by simp
  then have "stage_step t (stage_of bef) e st [] (fst r) (snd r)" by (simp add: stage_step_refl)
  then show ?thesis by (intro exI[of _ "[]"]) simp
next
  case False
  then obtain bk l where "subscribers = Some bk"
    and l: "(if bef then bucket_b bk else bucket_a bk) = Some l"
    and "some_loop nested t cf bef l e st = Some r"
    using assms(4) by (auto simp: invokeSubs_def split: option.splits if_splits)
  then show ?thesis using some_loop_step[OF assms(1,2,3)]
    by (auto simp: bucket_list_def)
qed

lemma forEach_invokeSubs_step:
  assumes "well_behaved nested" "t \<in> runningEvents st" "event_topic e = t"
      and "forEach_invokeSubs nested t bef buckets e st = Some r"
  shows "\<exists>new. stage_step t (stage_of bef) e st new (fst r) (snd r)
           \<and> subseq (invoked t (stage_of bef) new) (concat (map (bucket_list bef) buckets))"
  using assms(2,3,4)
proof (induction buckets arbitrary: e st)
  case Nil
  then have "stage_step t (stage_of bef) e st [] (fst r) (snd r)" by (auto simp: stage_step_refl)
  then show ?case by (intro exI[of _ "[]"]) simp
next
  case (Cons b bs)
  from Cons.prems(3) obtain r1 where
    r1: "invokeSubs nested t True bef b e st = Some r1"
    and rest: "forEach_invokeSubs nested t bef bs (fst r1) (snd r1) = Some r"
    by (auto split: option.splits)
  from invokeSubs_step[OF assms(1) Cons.prems(1,2) r1] obtain n1 where
    s1: "stage_step t (stage_of bef) e st n1 (fst r1) (snd r1)"
    and i1: "subseq (invoked t (stage_of bef) n1) (bucket_list bef b)" by blast
  have "t \<in> runningEvents (snd r1)" using stage_step_running[OF s1] Cons.prems(1) by simp
  moreover have "event_topic (fst r1) = t" using stage_step_topic[OF s1] Cons.prems(2) by simp
  ultimately obtain n2 where
    s2: "stage_step t (stage_of bef) (fst r1) (snd r1) n2 (fst r) (snd r)"
    and i2: "subseq (invoked t (stage_of bef) n2) (concat (map (bucket_list bef) bs))"
    using Cons.IH rest by blast
  have "subseq (invoked t (stage_of bef) (n1 @ n2)) (concat (map (bucket_list bef) (b # bs)))"
    using list_emb_append_mono[OF i1 i2] by simp
  then show ?case using stage_step_trans[OF s1 s2] by blast
qed

lemma subscriber_phase_step:
  assumes "well_behaved nested" "t \<in> runningEvents st" "event_topic e = t"
      and "subscriber_phase nested t bef override buckets e st = Some r"
  shows "\<exists>new. stage_step t (stage_of bef) e st new (fst r) (snd r)
           \<and> subseq (invoked t (stage_of bef) new) (phase_subscribers bef override buckets)"
proof (cases override)
  case None
  then show ?thesis using forEach_invokeSubs_step[OF assms(1,2,3)] assms(4)
    by (simp add: subscriber_phase_def phase_subscribers_def)
next
  case (Some l)
  then have "invokeSubs nested t False bef
               (Some (if bef then \<lparr>bucket_b = Some l, bucket_a = None\<rparr>
                      else \<lparr>bucket_b = None, bucket_a = Some l\<rparr>)) e st = Some r"
    using assms(4) by (simp add: subscriber_phase_def)
  from invokeSubs_step[OF assms(1,2,3) this] show ?thesis
    using Some by (auto simp: phase_subscribers_def bucket_list_def split: if_splits)
qed

lemma own_entry_topic: "own_entry t sg x \<Longrightarrow> topic_of x = Some t"
  by (cases x) (auto simp: own_entry_def)

lemma stage_step_dispatch_step:
  "stage_step t sg e st new e' st' \<Longrightarrow> dispatch_step t st new st'"
  by (auto simp: stage_step_def dispatch_step_def dest: own_entry_topic)

lemma dispatch_step_refl: "dispatch_step t st [] st"
  by (simp add: dispatch_step_def)

lemma dispatch_step_trans:
  "dispatch_step t st n1 st1 \<Longrightarrow> dispatch_step t st1 n2 st2 \<Longrightarrow> dispatch_step t st (n1 @ n2) st2"
  by (auto simp: dispatch_step_def frame_def)

lemma dispatch_step_console:
  "topic_of x = Some t \<Longrightarrow> dispatch_step t st [x] (console x st)"
  by (simp add: dispatch_step_def)

lemma dispatch_step_running:
  "dispatch_step t st new st' \<Longrightarrow> runningEvents st' = runningEvents st"
  by (simp add: dispatch_step_def frame_def)

lemma api_calls_Nil [simp]: "api_calls t sg [] = []"
  by (simp add: api_calls_def)

lemma api_calls_append [simp]: "api_calls t sg (xs @ ys) = api_calls t sg xs @ api_calls t sg ys"
  by (simp add: api_calls_def map_filter_def)

lemma api_calls_entry [simp]:
  "api_calls t sg (Invoked t' sg' sb # xs) = api_calls t sg xs"
  "api_calls t sg (UserCallback t' sg' h f # xs) = api_calls t sg xs"
  "api_calls t sg (FilterCalled t' sg' sb # xs) = api_calls t sg xs"
  "api_calls t sg (Api t' sg' a # xs) =
     (if t' = t \<and> sg' = sg then a # api_calls t sg xs else api_calls t sg xs)"
  "api_calls t sg (DefaultFnCalled t' f # xs) = api_calls t sg xs"
  "api_calls t sg (PreventedFnCalled t' f # xs) = api_calls t sg xs"
  "api_calls t sg (Notified k c ctx t' sb # xs) = api_calls t sg xs"
  "api_calls t sg (DetachNotified k c ctx t' # xs) = api_calls t sg xs"
  "api_calls t sg (ConsoleError m # xs) = api_calls t sg xs"
  "api_calls t sg (ConsoleWarn m # xs) = api_calls t sg xs"
  by (simp_all add: api_calls_def map_filter_def)

lemma default_called_Nil [simp]: "default_called t [] = []"
  by (simp add: default_called_def)

lemma default_called_append [simp]: "default_called t (xs @ ys) = default_called t xs @ default_called t ys"
  by (simp add: default_called_def map_filter_def)

lemma default_called_entry [simp]:
  "default_called t (Invoked t' sg' sb # xs) = default_called t xs"
  "default_called t (UserCallback t' sg' h f # xs) = default_called t xs"
  "default_called t (FilterCalled t' sg' sb # xs) = default_called t xs"
  "default_called t (Api t' sg' a # xs) = default_called t xs"
  "default_called t (DefaultFnCalled t' f # xs) =
     (if t' = t then f # default_called t xs else default_called t xs)"
  "default_called t (PreventedFnCalled t' f # xs) = default_called t xs"
  "default_called t (Notified k c ctx t' sb # xs) = default_called t xs"
  "default_called t (DetachNotified k c ctx t' # xs) = default_called t xs"
  "default_called t (ConsoleError m # xs) = default_called t xs"
  "default_called t (ConsoleWarn m # xs) = default_called t xs"
  by (simp_all add: default_called_def map_filter_def)

lemma prevented_called_Nil [simp]: "prevented_called t [] = []"
  by (simp add: prevented_called_def)

lemma prevented_called_append [simp]: "prevented_called t (xs @ ys) = prevented_called t xs @ prevented_called t ys"
  by (simp add: prevented_called_def map_filter_def)

lemma prevented_called_entry [simp]:
  "prevented_called t (Invoked t' sg' sb # xs) = prevented_called t xs"
  "prevented_called t (UserCallback t' sg' h f # xs) = prevented_called t xs"
  "prevented_called t (FilterCalled t' sg' sb # xs) = prevented_called t xs"
  "prevented_called t (Api t' sg' a # xs) = prevented_called t xs"
  "prevented_called t (DefaultFnCalled t' f # xs) = prevented_called t xs"
  "prevented_called t (PreventedFnCalled t' f # xs) =
     (if t' = t then f # prevented_called t xs else prevented_called t xs)"
  "prevented_called t (Notified k c ctx t' sb # xs) = prevented_called t xs"
  "prevented_called t (DetachNotified k c ctx t' # xs) = prevented_called t xs"
  "prevented_called t (ConsoleError m # xs) = prevented_called t xs"
  "prevented_called t (ConsoleWarn m # xs) = prevented_called t xs"
  by (simp_all add: prevented_called_def map_filter_def)


lemma stage_entries_other:
  assumes "t \<in> R" "\<forall>x \<in> set new. own_entry t sg x \<or> foreign R x"
  shows "default_called t new = []" "prevented_called t new = []"
        "sg' \<noteq> sg \<Longrightarrow> invoked t sg' new = []" "sg' \<noteq> sg \<Longrightarrow> api_calls t sg' new = []"
proof -
  have "default_called t new = [] \<and> prevented_called t new = []
        \<and> (sg' \<noteq> sg \<longrightarrow> invoked t sg' new = [] \<and> api_calls t sg' new = [])"
    using assms(2)
  proof (induction new)
    case Nil
    then show ?case by simp
  next
    case (Cons x xs)
    then have "own_entry t sg x \<or> foreign R x" by simp
    then show ?case using Cons assms(1)
      by (cases x) (auto simp: own_entry_def foreign_def)
  qed
  then show "default_called t new = []" "prevented_called t new = []"
        "sg' \<noteq> sg \<Longrightarrow> invoked t sg' new = []" "sg' \<noteq> sg \<Longrightarrow> api_calls t sg' new = []"
    by auto
qed

lemma stage_step_other:
  assumes "stage_step t sg e st new e' st'" "t \<in> runningEvents st"
  shows "default_called t new = []" "prevented_called t new = []"
        "sg' \<noteq> sg \<Longrightarrow> invoked t sg' new = []" "sg' \<noteq> sg \<Longrightarrow> api_calls t sg' new = []"
  using stage_entries_other[OF assms(2), of new sg] assms(1)
  by (auto simp: stage_step_def)

text \<open>The default phase, case by case.\<close>

lemma default_phase_skip:
  "customEventDefinition = None \<or> truthy (s_halted (e_status e)) \<Longrightarrow>
   default_phase nested t customEventDefinition e st = Some (e, st)"
  by (auto simp: default_phase_def split: option.splits)

lemma default_phase_no_fn:
  assumes "customEventDefinition = Some d" "\<not> truthy (s_halted (e_status e))"
      and "(if prevented e then preventedFn d else defaultFn d) = None"
  shows "default_phase nested t customEventDefinition e st
           = Some (assign e ''returnValue'' JUndefined, st)"
  using assms by (auto simp: default_phase_def prevented_def split: if_splits)

lemma default_phase_prevented:
  assumes "well_behaved nested" "t \<in> runningEvents st"
      and "customEventDefinition = Some d" "\<not> truthy (s_halted (e_status e))"
      and "prevented e" "preventedFn d = Some pfn"
      and "default_phase nested t customEventDefinition e st = Some r"
  shows "\<exists>new e'. stage_step t Default (e\<lparr>e_status := (e_status e)\<lparr>s_preventedFn := True\<rparr>\<rparr>)
                     (console (PreventedFnCalled t pfn) st) new e' (snd r)
                 \<and> fst r = assign e' ''returnValue'' (ret pfn)"
proof -
  from assms(3-7) obtain r0 where
    r0: "run_actions nested t Default (body pfn)
           (e\<lparr>e_status := (e_status e)\<lparr>s_preventedFn := True\<rparr>\<rparr>)
           (console (PreventedFnCalled t pfn) st) = Some r0"
    and r: "r = (assign (fst r0) ''returnValue'' (ret pfn), snd r0)"
    by (auto simp: default_phase_def prevented_def split: option.splits if_splits)
  have "t \<in> runningEvents (console (PreventedFnCalled t pfn) st)" using assms(2) by simp
  from run_actions_step[OF assms(1) this r0] show ?thesis using r by auto
qed

lemma default_phase_default:
  assumes "well_behaved nested" "t \<in> runningEvents st"
      and "customEventDefinition = Some d" "\<not> truthy (s_halted (e_status e))"
      and "\<not> prevented e" "defaultFn d = Some dfn"
      and "default_phase nested t customEventDefinition e st = Some r"
  shows "\<exists>new e'. stage_step t Default (e\<lparr>e_status := (e_status e)\<lparr>s_defaultFn := True\<rparr>\<rparr>)
                     (console (DefaultFnCalled t dfn) st) new e' (snd r)
                 \<and> fst r = assign e' ''returnValue'' (ret dfn)"
proof -
  from assms(3-7) obtain r0 where
    r0: "run_actions nested t Default (body dfn)
           (e\<lparr>e_status := (e_status e)\<lparr>s_defaultFn := True\<rparr>\<rparr>)
           (console (DefaultFnCalled t dfn) st) = Some r0"
    and r: "r = (assign (fst r0) ''returnValue'' (ret dfn), snd r0)"
    by (auto simp: default_phase_def prevented_def split: option.splits if_splits)
  have "t \<in> runningEvents (console (DefaultFnCalled t dfn) st)" using assms(2) by simp
  from run_actions_step[OF assms(1) this r0] show ?thesis using r by auto
qed

text \<open>Whatever the case, the default phase is a step of the dispatch that invokes no subscriber.\<close>

lemma default_phase_step:
  assumes "well_behaved nested" "t \<in> runningEvents st"
      and "default_phase nested t customEventDefinition e st = Some r"
  shows "\<exists>new. dispatch_step t st new (snd r) \<and> invoked t sg new = []
           \<and> api_calls t Before new = [] \<and> event_topic (fst r) = event_topic e"
proof (cases "customEventDefinition = None \<or> truthy (s_halted (e_status e))")
  case True
  then have "r = (e, st)" using default_phase_skip[OF True] assms(3) by simp
  then show ?thesis using dispatch_step_refl[of t st] by (intro exI[of _ "[]"]) simp
next
  case False
  then obtain d where d: "customEventDefinition = Some d"
    and nh: "\<not> truthy (s_halted (e_status e))" by auto
  show ?thesis
  proof (cases "(if prevented e then preventedFn d else defaultFn d)")
    case None
    then have "r = (assign e ''returnValue'' JUndefined, st)"
      using default_phase_no_fn[OF d nh None] assms(3) by simp
    then show ?thesis using dispatch_step_refl[of t st]
      by (intro exI[of _ "[]"]) (simp add: event_topic_def)
  next
    case (Some f)
    show ?thesis
    proof (cases "prevented e")
      case True
      then have pf: "preventedFn d = Some f" using Some by simp
      let ?u = "PreventedFnCalled t f"
      from default_phase_prevented[OF assms(1,2) d nh True pf assms(3)] obtain new e' where
        s: "stage_step t Default (e\<lparr>e_status := (e_status e)\<lparr>s_preventedFn := True\<rparr>\<rparr>)
              (console ?u st) new e' (snd r)"
        and r: "fst r = assign e' ''returnValue'' (ret f)" by blast
      have run: "t \<in> runningEvents (console ?u st)" using assms(2) by simp
      have "dispatch_step t st ([?u] @ new) (snd r)"
        using dispatch_step_trans[OF dispatch_step_console stage_step_dispatch_step[OF s]] by simp
      moreover have "invoked t sg ([?u] @ new) = []"
        using stage_step_other(3)[OF s run, of sg] run_actions_step
      proof -
        from assms(3) d nh True pf obtain r0 where
          "run_actions nested t Default (body f)
             (e\<lparr>e_status := (e_status e)\<lparr>s_preventedFn := True\<rparr>\<rparr>) (console ?u st) = Some r0"
          "snd r = snd r0"
          by (auto simp: default_phase_def prevented_def split: option.splits if_splits)
        from run_actions_step[OF assms(1) run this(1)] obtain n where
          sn: "stage_step t Default (e\<lparr>e_status := (e_status e)\<lparr>s_preventedFn := True\<rparr>\<rparr>)
                 (console ?u st) n (fst r0) (snd r0)" and i: "invoked t Default n = []" by blast
        have "n = new" using sn s \<open>snd r = snd r0\<close> by (simp add: stage_step_def)
        then show ?thesis using i stage_step_other(3)[OF s run, of sg] by (cases "sg = Default") auto
      qed
      moreover have "api_calls t Before ([?u] @ new) = []"
        using stage_step_other(4)[OF s run, of Before] by simp
      moreover have "event_topic (fst r) = event_topic e"
        using stage_step_topic[OF s] r by (simp add: event_topic_def)
      ultimately show ?thesis by blast
    next
      case False
      then have df: "defaultFn d = Some f" using Some by simp
      let ?u = "DefaultFnCalled t f"
      from default_phase_default[OF assms(1,2) d nh False df assms(3)] obtain new e' where
        s: "stage_step t Default (e\<lparr>e_status := (e_status e)\<lparr>s_defaultFn := True\<rparr>\<rparr>)
              (console ?u st) new e' (snd r)"
        and r: "fst r = assign e' ''returnValue'' (ret f)" by blast
      have run: "t \<in> runningEvents (console ?u st)" using assms(2) by simp
      have "dispatch_step t st ([?u] @ new) (snd r)"
        using dispatch_step_trans[OF dispatch_step_console stage_step_dispatch_step[OF s]] by simp
      moreover have "invoked t sg ([?u] @ new) = []"
      proof -
        from assms(3) d nh False df obtain r0 where
          "run_actions nested t Default (body f)
             (e\<lparr>e_status := (e_status e)\<lparr>s_defaultFn := True\<rparr>\<rparr>) (console ?u st) = Some r0"
          "snd r = snd r0"
          by (auto simp: default_phase_def prevented_def split: option.splits if_splits)
        from run_actions_step[OF assms(1) run this(1)] obtain n where
          sn: "stage_step t Default (e\<lparr>e_status := (e_status e)\<lparr>s_defaultFn := True\<rparr>\<rparr>)
                 (console ?u st) n (fst r0) (snd r0)" and i: "invoked t Default n = []" by blast
        have "n = new" using sn s \<open>snd r = snd r0\<close> by (simp add: stage_step_def)
        then show ?thesis using i stage_step_other(3)[OF s run, of sg] by (cases "sg = Default") auto
      qed
      moreover have "api_calls t Before ([?u] @ new) = []"
        using stage_step_other(4)[OF s run, of Before] by simp
      moreover have "event_topic (fst r) = event_topic e"
        using stage_step_topic[OF s] r by (simp add: event_topic_def)
      ultimately show ?thesis by blast
    qed
  qed
qed

lemma after_phase_step:
  assumes "well_behaved nested" "t \<in> runningEvents st" "event_topic e = t"
      and "after_phase nested t afterSubscribers buckets e st = Some r"
  shows "\<exists>new. stage_step t After e st new (fst r) (snd r)
           \<and> subseq (invoked t After new) (phase_subscribers False afterSubscribers buckets)
           \<and> (s_ok (e_status e) \<noteq> Some True \<longrightarrow> new = [] \<and> r = (e, st))"
proof (cases "s_ok (e_status e) = Some True")
  case True
  then have "subscriber_phase nested t False afterSubscribers buckets e st = Some r"
    using assms(4) by (simp add: after_phase_def)
  from subscriber_phase_step[OF assms(1,2,3) this] show ?thesis
    using True by (simp add: stage_of_def)
next
  case False
  then have "r = (e, st)" using assms(4) by (simp add: after_phase_def)
  then have "stage_step t After e st [] (fst r) (snd r)" by (simp add: stage_step_refl)
  then show ?thesis using False \<open>r = (e, st)\<close> by (intro exI[of _ "[]"]) simp
qed

lemma merge_keys_type:
  "e_type (merge_keys gr proto p keys e) = e_type e \<and> e_emitter (merge_keys gr proto p keys e) = e_emitter e"
  using merge_keys_fixed by blast

lemma event_topic_merge_payload [simp]:
  "event_topic (merge_payload gr proto payload0 e) = event_topic e"
  by (cases payload0) (simp_all add: merge_payload_def event_topic_def merge_keys_type)

lemma event_topic_new_event [simp]:
  "event_topic (new_event emitter0 ev em d) = em @ '':'' @ ev"
  by (simp add: event_topic_def new_event_def)

lemma event_topic_assign [simp]: "event_topic (assign e k v) = event_topic e"
  by (simp add: event_topic_def)

lemma build_event_step:
  assumes "build_event emitter0 ev em d payload0 st = (e0, st0)" "t = em @ '':'' @ ev"
  shows "event_topic e0 = t"
    and "\<exists>new. dispatch_step t st new st0 \<and> invoked t sg new = [] \<and> api_calls t sg new = []
           \<and> default_called t new = [] \<and> prevented_called t new = []"
proof -
  let ?m = "merge_payload (getterResult st) (defaultEventObj st) payload0 (new_event emitter0 ev em d)"
  have top: "event_topic ?m = t" using assms(2) by simp
  show "event_topic e0 = t"
    using assms(1) top by (auto simp: build_event_def unsilence_def split: if_splits)
  show "\<exists>new. dispatch_step t st new st0 \<and> invoked t sg new = [] \<and> api_calls t sg new = []
           \<and> default_called t new = [] \<and> prevented_called t new = []"
  proof (cases "st0 = st")
    case True
    then show ?thesis using dispatch_step_refl[of t st] by (intro exI[of _ "[]"]) simp
  next
    case False
    then have "st0 = console (ConsoleWarn (CannotSilence t)) st"
      using assms(1) top by (auto simp: build_event_def unsilence_def split: if_splits)
    then show ?thesis
      using dispatch_step_console[of "ConsoleWarn (CannotSilence t)" t st]
      by (intro exI[of _ "[ConsoleWarn (CannotSilence t)]"]) simp
  qed
qed

lemma resolve_ok_topic [simp]: "event_topic (resolve_ok gr e) = event_topic e"
  by (simp add: resolve_ok_def event_topic_def Let_def)

text \<open>The whole dispatch of a topic is a step of that dispatch.\<close>

lemma dispatch_is_step:
  assumes "well_behaved nested" "t \<in> runningEvents st" "match_customevent t = Some extract"
      and "dispatch nested emitter0 t extract payload0 bs as st = Some r"
  shows "\<exists>new. dispatch_step t st new (snd r)"
proof -
  obtain em ev where ex: "extract = (em, ev)" by (cases "extract")
  have t: "t = em @ '':'' @ ev" using match_customevent_split assms(3) ex by simp
  obtain e0 st0 where b: "build_event emitter0 ev em (ce st t) payload0 st = (e0, st0)"
    by (cases "build_event emitter0 ev em (ce st t) payload0 st")
  let ?bk = "resolve_buckets (subs st) t extract"
  from assms(4) b ex obtain r1 r2 where
    p1: "subscriber_phase nested t True bs ?bk e0 st0 = Some r1"
    and p2: "default_phase nested t (ce st t) (resolve_ok (getterResult (snd r1)) (fst r1)) (snd r1) = Some r2"
    and p3: "after_phase nested t as ?bk (fst r2) (snd r2) = Some r"
    by (auto simp: dispatch_def Let_def split: option.splits)
  from build_event_step[OF b t] obtain n0 where
    top0: "event_topic e0 = t" and s0: "dispatch_step t st n0 st0" by blast
  have run0: "t \<in> runningEvents st0" using dispatch_step_running[OF s0] assms(2) by simp
  from subscriber_phase_step[OF assms(1) run0 top0 p1] obtain n1 where
    s1: "stage_step t (stage_of True) e0 st0 n1 (fst r1) (snd r1)" by blast
  have run1: "t \<in> runningEvents (snd r1)" using stage_step_running[OF s1] run0 by simp
  have top1: "event_topic (fst r1) = t" using stage_step_topic[OF s1] top0 by simp
  from default_phase_step[OF assms(1) run1 p2] obtain n2 where
    s2: "dispatch_step t (snd r1) n2 (snd r2)"
    and top2: "event_topic (fst r2) = event_topic (resolve_ok (getterResult (snd r1)) (fst r1))"
    by blast
  have run2: "t \<in> runningEvents (snd r2)" using dispatch_step_running[OF s2] run1 by simp
  have top2': "event_topic (fst r2) = t" using top2 top1 by simp
  from after_phase_step[OF assms(1) run2 top2' p3] obtain n3 where
    s3: "stage_step t After (fst r2) (snd r2) n3 (fst r) (snd r)" by blast
  show ?thesis
    using dispatch_step_trans[OF s0 dispatch_step_trans[OF stage_step_dispatch_step[OF s1]
            dispatch_step_trans[OF s2 stage_step_dispatch_step[OF s3]]]]
    by blast
qed

lemma emit_body_quiet:
  assumes "well_behaved nested"
      and "emit_body nested emitter0 customEvent0 payload0 bs as st = Some r"
  shows "quiet st (snd r)"
proof -
  let ?t = "qualify emitter0 customEvent0"
  show ?thesis
  proof (cases "match_customevent ?t")
    case None
    then have "snd r = console (ConsoleError (EmitNoMatch ?t)) st"
      using assms(2) by (auto simp: emit_body_def Let_def)
    then show ?thesis by (simp add: quiet_def foreign_def)
  next
    case (Some ex)
    show ?thesis
    proof (cases "?t \<in> runningEvents st")
      case True
      then have "snd r = console (ConsoleWarn (EmitLoop ?t)) st"
        using assms(2) Some by (auto simp: emit_body_def Let_def)
      then show ?thesis by (simp add: quiet_def foreign_def)
    next
      case False
      let ?st1 = "st\<lparr>runningEvents := insert ?t (runningEvents st)\<rparr>"
      from assms(2) Some False obtain r1 where
        d: "dispatch nested emitter0 ?t ex payload0 bs as ?st1 = Some r1"
        and r: "snd r = (snd r1)\<lparr>runningEvents := runningEvents (snd r1) - {?t}\<rparr>"
        by (auto simp: emit_body_def Let_def split: option.splits)
      have "?t \<in> runningEvents ?st1" by simp
      from dispatch_is_step[OF assms(1) this Some d] obtain new where
        s: "dispatch_step ?t ?st1 new (snd r1)" by blast
      have fr: "frame st (snd r)"
        using s False by (auto simp: r dispatch_step_def frame_def)
      have tr: "trace (snd r) = trace st @ new"
        using s by (simp add: r dispatch_step_def)
      have "foreign (runningEvents st) x" if "x \<in> set new" for x
      proof -
        from s that have "topic_of x = Some ?t \<or> foreign (insert ?t (runningEvents st)) x"
          by (auto simp: dispatch_step_def)
        then show ?thesis using False by (auto simp: foreign_def split: option.splits)
      qed
      then show ?thesis using fr tr by (auto simp: quiet_def)
    qed
  qed
qed

lemma well_behaved_nested_emit: "well_behaved (nested_emit n)"
proof (induction n)
  case 0
  then show ?case by (simp add: well_behaved_def)
next
  case (Suc n)
  show ?case
    unfolding well_behaved_def
    using emit_body_quiet[OF Suc] by simp
qed

section \<open>Properties of an emission\<close>

lemma dispatch_phases:
  assumes "well_behaved nested" "t \<in> runningEvents st" "match_customevent t = Some (em, ev)"
      and "dispatch nested emitter0 t (em, ev) payload0 bs as st = Some r"
  obtains e0 st0 n0 e1 st1 n1 e2 st2 n2 n3 where
    "build_event emitter0 ev em (ce st t) payload0 st = (e0, st0)"
    "dispatch_step t st n0 st0"
    "\<forall>sg. invoked t sg n0 = [] \<and> api_calls t sg n0 = []"
    "default_called t n0 = [] \<and> prevented_called t n0 = []"
    "stage_step t Before e0 st0 n1 e1 st1"
    "subseq (invoked t Before n1) (phase_subscribers True bs (resolve_buckets (subs st) t (em, ev)))"
    "default_phase nested t (ce st t) (resolve_ok (getterResult st) e1) st1 = Some (e2, st2)"
    "dispatch_step t st1 n2 st2"
    "\<forall>sg. invoked t sg n2 = []" "api_calls t Before n2 = []"
    "stage_step t After e2 st2 n3 (fst r) (snd r)"
    "subseq (invoked t After n3) (phase_subscribers False as (resolve_buckets (subs st) t (em, ev)))"
    "s_ok (e_status e2) \<noteq> Some True \<longrightarrow> n3 = [] \<and> r = (e2, st2)"
    "trace (snd r) = trace st @ n0 @ n1 @ n2 @ n3"
    "t \<in> runningEvents st0" "t \<in> runningEvents st1" "t \<in> runningEvents st2"
    "getterResult st0 = getterResult st" "getterResult st1 = getterResult st"
    "getterResult st2 = getterResult st" "frame st (snd r)"
    "event_topic e2 = t"
    "after_phase nested t as (resolve_buckets (subs st) t (em, ev)) e2 st2 = Some r"
    "event_topic e0 = t"
    "subscriber_phase nested t True bs (resolve_buckets (subs st) t (em, ev)) e0 st0 = Some (e1, st1)"
proof -
  have t: "t = em @ '':'' @ ev" using match_customevent_split assms(3) by simp
  obtain e0 st0 where b: "build_event emitter0 ev em (ce st t) payload0 st = (e0, st0)"
    by (cases "build_event emitter0 ev em (ce st t) payload0 st")
  let ?bk = "resolve_buckets (subs st) t (em, ev)"
  from assms(4) b obtain r1 r2 where
    p1: "subscriber_phase nested t True bs ?bk e0 st0 = Some r1"
    and p2: "default_phase nested t (ce st t) (resolve_ok (getterResult (snd r1)) (fst r1)) (snd r1) = Some r2"
    and p3: "after_phase nested t as ?bk (fst r2) (snd r2) = Some r"
    by (auto simp: dispatch_def Let_def split: option.splits)
  from build_event_step(1)[OF b t] have top0: "event_topic e0 = t" .
  have "\<exists>n0. dispatch_step t st n0 st0 \<and> (\<forall>sg. invoked t sg n0 = [] \<and> api_calls t sg n0 = [])
          \<and> default_called t n0 = [] \<and> prevented_called t n0 = []"
  proof (cases "st0 = st")
    case True
    then show ?thesis using dispatch_step_refl[of t st] by (intro exI[of _ "[]"]) simp
  next
    case False
    then have "st0 = console (ConsoleWarn (CannotSilence t)) st"
      using b t by (auto simp: build_event_def unsilence_def split: if_splits)
    then show ?thesis
      using dispatch_step_console[of "ConsoleWarn (CannotSilence t)" t st]
      by (intro exI[of _ "[ConsoleWarn (CannotSilence t)]"]) simp
  qed
  then obtain n0 where s0: "dispatch_step t st n0 st0"
    and i0: "\<forall>sg. invoked t sg n0 = [] \<and> api_calls t sg n0 = []"
    and d0: "default_called t n0 = [] \<and> prevented_called t n0 = []" by blast
  have run0: "t \<in> runningEvents st0" using dispatch_step_running[OF s0] assms(2) by simp
  from subscriber_phase_step[OF assms(1) run0 top0 p1] obtain n1 where
    s1: "stage_step t Before e0 st0 n1 (fst r1) (snd r1)"
    and i1: "subseq (invoked t Before n1) (phase_subscribers True bs ?bk)"
    by (auto simp: stage_of_def)
  have run1: "t \<in> runningEvents (snd r1)" using stage_step_running[OF s1] run0 by simp
  have top1: "event_topic (fst r1) = t" using stage_step_topic[OF s1] top0 by simp
  have g0: "getterResult st0 = getterResult st" using s0 by (simp add: dispatch_step_def frame_def)
  have g1: "getterResult (snd r1) = getterResult st"
    using s1 g0 by (simp add: stage_step_def frame_def)
  from default_phase_step[OF assms(1) run1 p2] have
    "\<forall>sg. \<exists>n2. dispatch_step t (snd r1) n2 (snd r2) \<and> invoked t sg n2 = []
           \<and> api_calls t Before n2 = []
           \<and> event_topic (fst r2) = event_topic (resolve_ok (getterResult (snd r1)) (fst r1))"
    by blast
  then obtain n2 where s2: "dispatch_step t (snd r1) n2 (snd r2)"
    and a2: "api_calls t Before n2 = []"
    and top2: "event_topic (fst r2) = event_topic (resolve_ok (getterResult (snd r1)) (fst r1))"
    by blast
  have i2: "\<forall>sg. invoked t sg n2 = []"
  proof
    fix sg
    from default_phase_step[OF assms(1) run1 p2, of sg] obtain m where
      "dispatch_step t (snd r1) m (snd r2)" "invoked t sg m = []" by blast
    moreover have "m = n2" using calculation(1) s2 by (simp add: dispatch_step_def)
    ultimately show "invoked t sg n2 = []" by simp
  qed
  have run2: "t \<in> runningEvents (snd r2)" using dispatch_step_running[OF s2] run1 by simp
  have top2': "event_topic (fst r2) = t" using top2 top1 by simp
  have g2: "getterResult (snd r2) = getterResult st"
    using s2 g1 by (simp add: dispatch_step_def frame_def)
  from after_phase_step[OF assms(1) run2 top2' p3] obtain n3 where
    s3: "stage_step t After (fst r2) (snd r2) n3 (fst r) (snd r)"
    and i3: "subseq (invoked t After n3) (phase_subscribers False as ?bk)"
    and sk: "s_ok (e_status (fst r2)) \<noteq> Some True \<longrightarrow> n3 = [] \<and> r = (fst r2, snd r2)"
    by blast
  have tr: "trace (snd r) = trace st @ n0 @ n1 @ n2 @ n3"
    using s0 s1 s2 s3 by (simp add: dispatch_step_def stage_step_def)
  have fr: "frame st (snd r)"
    using s0 s1 s2 s3 by (auto simp: dispatch_step_def stage_step_def frame_def)
  show ?thesis
    using that[of e0 st0 n0 n1 "fst r1" "snd r1" "fst r2" "snd r2" n2 n3]
      b s0 i0 d0 s1 i1 p2 s2 i2 a2 s3 i3 sk tr run0 run1 run2 g0 g1 g2 fr top2' p3 top0 p1
    by simp
qed

lemma emit_private_Some:
  assumes "emit_private n emitter0 c payload0 bs as st = Some (Some e, st')"
  obtains em ev st2 where
    "match_customevent (qualify emitter0 c) = Some (em, ev)"
    "qualify emitter0 c \<notin> runningEvents st"
    "dispatch (nested_emit n) emitter0 (qualify emitter0 c) (em, ev) payload0 bs as
       (st\<lparr>runningEvents := insert (qualify emitter0 c) (runningEvents st)\<rparr>) = Some (e, st2)"
    "st' = st2\<lparr>runningEvents := runningEvents st2 - {qualify emitter0 c}\<rparr>"
  using assms
  by (auto simp: emit_private_def emit_body_def Let_def split: option.splits if_splits)



lemma emit_private_rejected:
  assumes "match_customevent (qualify emitter0 customEvent) = Some ex"
      and "qualify emitter0 customEvent \<in> runningEvents st"
  shows "emit_private n emitter0 customEvent payload0 bs as st
           = Some (None, console (ConsoleWarn (EmitLoop (qualify emitter0 customEvent))) st)"
  using assms by (simp add: emit_private_def emit_body_def Let_def)

lemma emit_private_quiet:
  "emit_private n emitter0 customEvent payload0 bs as st = Some r \<Longrightarrow> quiet st (snd r)"
  using emit_body_quiet[OF well_behaved_nested_emit] by (simp add: emit_private_def)

text \<open>
  C6. Let \<open>t\<close> be the valid topic that \<open>emit\<close> is called for.
  When \<open>t\<close> is running, the call returns \<open>undefined\<close> and changes nothing but the trace,
  which gets the warning. While \<open>t\<close> is running, whatever the script of a callback does
  (emitting \<open>t\<close> again, directly or from the subscribers of other topics it emits) invokes
  no subscriber, no default function and no prevented function of \<open>t\<close>, and leaves the
  registries and the set of running topics as they were. And every call of \<open>emit\<close> that
  returns leaves the set of running topics as it found it: a topic that was not running
  before the emission is not running after it, and can be emitted again.
\<close>

theorem reentrant_emit_is_rejected:
  assumes "match_customevent t = Some ex" and "qualify emitter0 customEvent = t"
  shows "(t \<in> runningEvents st \<longrightarrow>
            emit_private n emitter0 customEvent payload0 bs as st
              = Some (None, console (ConsoleWarn (EmitLoop t)) st))
       \<and> (t \<in> runningEvents st \<longrightarrow>
            (\<forall>sg script e r. run_actions (nested_emit n) t sg script e st = Some r \<longrightarrow>
               frame st (snd r)
               \<and> (\<forall>sg'. invoked t sg' (new_trace st (snd r)) = [])
               \<and> default_called t (new_trace st (snd r)) = []
               \<and> prevented_called t (new_trace st (snd r)) = []))
       \<and> (\<forall>r. emit_private n emitter0 customEvent payload0 bs as st = Some r \<longrightarrow>
               runningEvents (snd r) = runningEvents st \<and> frame st (snd r))"
proof (intro conjI impI allI)
  assume "t \<in> runningEvents st"
  then show "emit_private n emitter0 customEvent payload0 bs as st
              = Some (None, console (ConsoleWarn (EmitLoop t)) st)"
    using emit_private_rejected[of emitter0 customEvent ex st n payload0 bs as] assms by simp
next
  fix sg script e r sg'
  assume run: "t \<in> runningEvents st"
    and r: "run_actions (nested_emit n) t sg script e st = Some r"
  from run_actions_step[OF well_behaved_nested_emit run r] obtain new where
    s: "stage_step t sg e st new (fst r) (snd r)" and i: "invoked t sg new = []" by blast
  have nt: "new_trace st (snd r) = new" using s by (simp add: stage_step_def)
  show "frame st (snd r)" using s by (simp add: stage_step_def)
  show "invoked t sg' (new_trace st (snd r)) = []"
    using i stage_step_other(3)[OF s run, of sg'] by (cases "sg' = sg") (simp_all add: nt)
  show "default_called t (new_trace st (snd r)) = []"
    using stage_step_other(1)[OF s run] by (simp add: nt)
  show "prevented_called t (new_trace st (snd r)) = []"
    using stage_step_other(2)[OF s run] by (simp add: nt)
next
  fix r
  assume "emit_private n emitter0 customEvent payload0 bs as st = Some r"
  then have "quiet st (snd r)" by (rule emit_private_quiet)
  then show "runningEvents (snd r) = runningEvents st" "frame st (snd r)"
    by (simp_all add: quiet_def frame_def)
qed

theorem reentrant_emit_is_rejected_witness:
  "match_customevent ''red:save'' = Some (''red'', ''save'')
   \<and> qualify redObject ''red:save'' = ''red:save''
   \<and> ''red:save'' \<in> runningEvents (reemitting\<lparr>runningEvents := {''red:save''}\<rparr>)
   \<and> emit_private 1 redObject ''red:save'' None None None
        (reemitting\<lparr>runningEvents := {''red:save''}\<rparr>)
       = Some (None, console (ConsoleWarn (EmitLoop ''red:save''))
                       (reemitting\<lparr>runningEvents := {''red:save''}\<rparr>))
   \<and> map_option (\<lambda>r. (fst r \<noteq> None, trace (snd r), runningEvents (snd r) = {}))
        (emit 1 redObject ''red:save'' None reemitting)
       = Some (True,
               [Invoked ''red:save'' Before (record_of fn_reemit),
                Api ''red:save'' Before (Emit redObject ''red:save'' None),
                ConsoleWarn (EmitLoop ''red:save'')],
               True)"
proof -
  have h1: "match_customevent ''red:save'' = Some (''red'', ''save'')" by (rule parse_red_save)
  have h2: "qualify redObject ''red:save'' = ''red:save''" by code_simp
  have h3: "''red:save'' \<in> runningEvents (reemitting\<lparr>runningEvents := {''red:save''}\<rparr>)" by simp
  have ev: "map_option (\<lambda>r. (fst r \<noteq> None, trace (snd r), runningEvents (snd r) = {}))
        (emit 1 redObject ''red:save'' None reemitting)
       = Some (True,
               [Invoked ''red:save'' Before (record_of fn_reemit),
                Api ''red:save'' Before (Emit redObject ''red:save'' None),
                ConsoleWarn (EmitLoop ''red:save'')],
               True)"
    by code_simp
  note T = reentrant_emit_is_rejected [OF h1 h2, of "reemitting\<lparr>runningEvents := {''red:save''}\<rparr>"
      1 None None None]
  from T [THEN conjunct1, rule_format, OF h3] h1 h2 h3 ev show ?thesis by simp
qed

text \<open>
  C8 (a defect of the code). The wrapper sets \<open>handler._detached\<close> only after the user's
  callback has returned. After \<open>Event.onceBefore('red:*', cb, redObject)\<close> with a callback
  that emits \<open>red:b\<close>, one \<open>emit(redObject, 'red:a')\<close> calls the callback, which emits
  \<open>red:b\<close>; that emission finds the same wrapper with the flag still unset and calls the
  callback a second time. Two emissions that follow each other before the deferred detach
  runs call the callback once, as intended.
\<close>

theorem once_callback_runs_twice_when_nested:
  "map_option (\<lambda>r. user_calls 0 (trace (snd r))) (emit 2 redObject ''red:a'' None once_nested)
     = Some [fn_emit_b, fn_emit_b]
   \<and> map_option (\<lambda>r. trace (snd r)) (emit 2 redObject ''red:a'' None once_nested)
     = Some [Invoked ''red:a'' Before
               \<lparr>sub_o = redObject, sub_cb = Wrapper 0 fn_emit_b, sub_f = None, sub_s = False\<rparr>,
             UserCallback ''red:a'' Before 0 fn_emit_b,
             Api ''red:a'' Before (Emit redObject ''red:b'' None),
             Invoked ''red:b'' Before
               \<lparr>sub_o = redObject, sub_cb = Wrapper 0 fn_emit_b, sub_f = None, sub_s = False\<rparr>,
             UserCallback ''red:b'' Before 0 fn_emit_b,
             Api ''red:b'' Before (Emit redObject ''red:b'' None),
             ConsoleWarn (EmitLoop ''red:b'')]
   \<and> map_option (\<lambda>r. map_option (\<lambda>r2. user_calls 0 (trace (snd r2)))
                       (emit 0 redObject ''red:save'' None (snd r)))
        (emit 0 redObject ''red:save'' None once_plain)
     = Some (Some [noop])"
  by code_simp

subsection \<open>Status values written by the callbacks\<close>

lemma get_prop_assign_other [simp]:
  "k' \<noteq> k \<Longrightarrow> get_prop gr (assign e k v) k' = get_prop gr e k'"
  by (auto simp: get_prop_def assign_def map_add_def update_conv' split: option.splits descriptor.splits)

lemma status_halt [simp]:
  "s_ok (e_status (halt gr r e)) = s_ok (e_status e)"
  "s_defaultPrevented (e_status (halt gr r e)) = s_defaultPrevented (e_status e)"
  "s_defaultPreventedContinue (e_status (halt gr r e)) = s_defaultPreventedContinue (e_status e)"
  "s_preventedFn (e_status (halt gr r e)) = s_preventedFn (e_status e)"
  "s_defaultFn (e_status (halt gr r e)) = s_defaultFn (e_status e)"
  "s_unSilencable (e_status (halt gr r e)) = s_unSilencable (e_status e)"
  "e_props (halt gr r e) = e_props e"
  by (simp_all add: halt_def)

lemma status_preventDefault [simp]:
  "s_ok (e_status (preventDefault gr r e)) = s_ok (e_status e)"
  "s_halted (e_status (preventDefault gr r e)) = s_halted (e_status e)"
  "s_defaultPreventedContinue (e_status (preventDefault gr r e)) = s_defaultPreventedContinue (e_status e)"
  "s_preventedFn (e_status (preventDefault gr r e)) = s_preventedFn (e_status e)"
  "s_defaultFn (e_status (preventDefault gr r e)) = s_defaultFn (e_status e)"
  "s_unSilencable (e_status (preventDefault gr r e)) = s_unSilencable (e_status e)"
  "e_props (preventDefault gr r e) = e_props e"
  by (simp_all add: preventDefault_def)

lemma status_preventDefaultContinue [simp]:
  "s_ok (e_status (preventDefaultContinue gr r e)) = s_ok (e_status e)"
  "s_halted (e_status (preventDefaultContinue gr r e)) = s_halted (e_status e)"
  "s_defaultPrevented (e_status (preventDefaultContinue gr r e)) = s_defaultPrevented (e_status e)"
  "s_preventedFn (e_status (preventDefaultContinue gr r e)) = s_preventedFn (e_status e)"
  "s_defaultFn (e_status (preventDefaultContinue gr r e)) = s_defaultFn (e_status e)"
  "s_unSilencable (e_status (preventDefaultContinue gr r e)) = s_unSilencable (e_status e)"
  "e_props (preventDefaultContinue gr r e) = e_props e"
  by (simp_all add: preventDefaultContinue_def)

lemma get_prop_status_calls [simp]:
  "get_prop gr (halt gr' r e) k = get_prop gr e k"
  "get_prop gr (preventDefault gr' r e) k = get_prop gr e k"
  "get_prop gr (preventDefaultContinue gr' r e) k = get_prop gr e k"
  by (simp_all add: get_prop_def)

lemma apply_action_kept [simp]:
  "s_ok (e_status (apply_action gr a e)) = s_ok (e_status e)"
  "s_preventedFn (e_status (apply_action gr a e)) = s_preventedFn (e_status e)"
  "s_defaultFn (e_status (apply_action gr a e)) = s_defaultFn (e_status e)"
  "s_unSilencable (e_status (apply_action gr a e)) = s_unSilencable (e_status e)"
  by (cases a, simp_all add: apply_action_def)+

lemma apply_action_prop [simp]:
  "k \<noteq> ''silent'' \<Longrightarrow> get_prop gr (apply_action gr' a e) k = get_prop gr e k"
  by (cases a) (simp_all add: apply_action_def)

lemma replay_entry_kept [simp]:
  "s_ok (e_status (replay_entry gr t sg x e)) = s_ok (e_status e)"
  "s_preventedFn (e_status (replay_entry gr t sg x e)) = s_preventedFn (e_status e)"
  "s_defaultFn (e_status (replay_entry gr t sg x e)) = s_defaultFn (e_status e)"
  "s_unSilencable (e_status (replay_entry gr t sg x e)) = s_unSilencable (e_status e)"
  by (cases x, simp_all add: replay_entry_def)+

lemma replay_entry_prop [simp]:
  "k \<noteq> ''silent'' \<Longrightarrow> get_prop gr' (replay_entry gr t sg x e) k = get_prop gr' e k"
  by (cases x) (simp_all add: replay_entry_def)

lemma replay_kept [simp]:
  "s_ok (e_status (replay gr t sg xs e)) = s_ok (e_status e)"
  "s_preventedFn (e_status (replay gr t sg xs e)) = s_preventedFn (e_status e)"
  "s_defaultFn (e_status (replay gr t sg xs e)) = s_defaultFn (e_status e)"
  "s_unSilencable (e_status (replay gr t sg xs e)) = s_unSilencable (e_status e)"
  by (induction xs arbitrary: e, simp_all)+

lemma replay_prop [simp]:
  "k \<noteq> ''silent'' \<Longrightarrow> get_prop gr' (replay gr t sg xs e) k = get_prop gr' e k"
  by (induction xs arbitrary: e) simp_all

lemma haltable_replay [simp]: "haltable gr' (replay gr t sg xs e) = haltable gr' e"
  by (simp add: haltable_def)

lemma preventable_replay [simp]:
  "preventable_event gr' (replay gr t sg xs e) = preventable_event gr' e"
  by (simp add: preventable_event_def)

lemma haltable_replay_entry [simp]: "haltable gr' (replay_entry gr t sg x e) = haltable gr' e"
  by (simp add: haltable_def)

lemma preventable_replay_entry [simp]:
  "preventable_event gr' (replay_entry gr t sg x e) = preventable_event gr' e"
  by (simp add: preventable_event_def)

lemma halts_simps [simp]:
  "halts [] = []"
  "halts (Halt r # xs) = r # halts xs"
  "halts (PreventDefault r # xs) = halts xs"
  "halts (PreventDefaultContinue r # xs) = halts xs"
  "halts (SetSilent v # xs) = halts xs"
  "halts (Emit em c p # xs) = halts xs"
  "halts (xs @ ys) = halts xs @ halts ys"
  by (simp_all add: halts_def map_filter_def)

lemma prevents_simps [simp]:
  "prevents [] = []"
  "prevents (Halt r # xs) = prevents xs"
  "prevents (PreventDefault r # xs) = r # prevents xs"
  "prevents (PreventDefaultContinue r # xs) = prevents xs"
  "prevents (SetSilent v # xs) = prevents xs"
  "prevents (Emit em c p # xs) = prevents xs"
  "prevents (xs @ ys) = prevents xs @ prevents ys"
  by (simp_all add: prevents_def map_filter_def)

lemma continues_simps [simp]:
  "continues [] = []"
  "continues (Halt r # xs) = continues xs"
  "continues (PreventDefault r # xs) = continues xs"
  "continues (PreventDefaultContinue r # xs) = r # continues xs"
  "continues (SetSilent v # xs) = continues xs"
  "continues (Emit em c p # xs) = continues xs"
  "continues (xs @ ys) = continues xs @ continues ys"
  by (simp_all add: continues_def map_filter_def)

lemma truthy_reason_or_true [simp]: "truthy (reason_or_true r)"
  by (simp add: reason_or_true_def)

text \<open>What one entry does to the three status values.\<close>

lemma replay_entry_halted:
  "s_halted (e_status (replay_entry gr t sg x e)) =
     (case halts (api_calls t sg [x]) of
        [] \<Rightarrow> s_halted (e_status e)
      | r # rs \<Rightarrow> if haltable gr e then reason_or_true r else s_halted (e_status e))"
proof (cases x)
  case (Api t' sg' a)
  then show ?thesis
    by (cases a) (auto simp: replay_entry_def apply_action_def halt_def haltable_def)
qed (simp_all add: replay_entry_def)

lemma replay_entry_prevented:
  "s_defaultPrevented (e_status (replay_entry gr t sg x e)) =
     (case prevents (api_calls t sg [x]) of
        [] \<Rightarrow> s_defaultPrevented (e_status e)
      | r # rs \<Rightarrow> if preventable_event gr e then reason_or_true r
                  else s_defaultPrevented (e_status e))"
proof (cases x)
  case (Api t' sg' a)
  then show ?thesis
    by (cases a) (auto simp: replay_entry_def apply_action_def preventDefault_def
        preventable_event_def)
qed (simp_all add: replay_entry_def)

lemma replay_entry_continued:
  "s_defaultPreventedContinue (e_status (replay_entry gr t sg x e)) =
     (case continues (api_calls t sg [x]) of
        [] \<Rightarrow> s_defaultPreventedContinue (e_status e)
      | r # rs \<Rightarrow> if preventable_event gr e then reason_or_true r
                  else s_defaultPreventedContinue (e_status e))"
proof (cases x)
  case (Api t' sg' a)
  then show ?thesis
    by (cases a) (auto simp: replay_entry_def apply_action_def preventDefaultContinue_def
        preventable_event_def)
qed (simp_all add: replay_entry_def)

lemma replay_halted:
  "s_halted (e_status (replay gr t sg xs e)) =
     (if haltable gr e \<and> halts (api_calls t sg xs) \<noteq> []
      then reason_or_true (last (halts (api_calls t sg xs)))
      else s_halted (e_status e))"
proof (induction xs arbitrary: e)
  case Nil
  then show ?case by simp
next
  case (Cons x xs)
  show ?case
  proof (cases x)
    case (Api t' sg' a)
    then show ?thesis
      by (cases a) (auto simp: Cons.IH replay_entry_halted)
  qed (auto simp: Cons.IH replay_entry_halted)
qed

lemma replay_prevented:
  "s_defaultPrevented (e_status (replay gr t sg xs e)) =
     (if preventable_event gr e \<and> prevents (api_calls t sg xs) \<noteq> []
      then reason_or_true (last (prevents (api_calls t sg xs)))
      else s_defaultPrevented (e_status e))"
proof (induction xs arbitrary: e)
  case Nil
  then show ?case by simp
next
  case (Cons x xs)
  show ?case
  proof (cases x)
    case (Api t' sg' a)
    then show ?thesis
      by (cases a) (auto simp: Cons.IH replay_entry_prevented)
  qed (auto simp: Cons.IH replay_entry_prevented)
qed

lemma replay_continued:
  "s_defaultPreventedContinue (e_status (replay gr t sg xs e)) =
     (if preventable_event gr e \<and> continues (api_calls t sg xs) \<noteq> []
      then reason_or_true (last (continues (api_calls t sg xs)))
      else s_defaultPreventedContinue (e_status e))"
proof (induction xs arbitrary: e)
  case Nil
  then show ?case by simp
next
  case (Cons x xs)
  show ?case
  proof (cases x)
    case (Api t' sg' a)
    then show ?thesis
      by (cases a) (auto simp: Cons.IH replay_entry_continued)
  qed (auto simp: Cons.IH replay_entry_continued)
qed

subsection \<open>The fresh event object\<close>

lemma truthy_flag [simp]: "truthy (flag b) = b"
  by (simp add: flag_def)

lemma merge_payload_status [simp]:
  "e_status (merge_payload gr proto payload0 e) = e_status e"
  by (cases payload0) (simp_all add: merge_payload_def merge_keys_fixed)

lemma merge_payload_kept:
  "map_of (e_props e) k \<noteq> None \<Longrightarrow>
   get_prop gr' (merge_payload gr proto payload0 e) k = get_prop gr' e k"
  by (cases payload0)
     (simp_all add: merge_payload_def get_prop_def merge_keys_props has_property_iff)

lemma unsilence_kept:
  "e_status (fst (unsilence e st)) = e_status e"
  "k \<noteq> ''silent'' \<Longrightarrow> get_prop gr (fst (unsilence e st)) k = get_prop gr e k"
  by (simp_all add: unsilence_def)

lemma build_event_fresh:
  assumes "build_event emitter0 ev em (Some d) payload0 st = (e0, st0)"
  shows "s_ok (e_status e0) = None"
    and "s_halted (e_status e0) = JUndefined"
    and "s_defaultPrevented (e_status e0) = JUndefined"
    and "s_defaultPreventedContinue (e_status e0) = JUndefined"
    and "s_preventedFn (e_status e0) = False"
    and "s_defaultFn (e_status e0) = False"
    and "haltable gr e0 = (\<not> unHaltable d)"
    and "preventable_event gr e0 = (\<not> unPreventable d)"
proof -
  let ?n = "new_event emitter0 ev em (Some d)"
  let ?m = "merge_payload (getterResult st) (defaultEventObj st) payload0 ?n"
  have e0: "e0 = fst (unsilence ?m st)" using assms by (simp add: build_event_def)
  have s: "e_status e0 = empty_status\<lparr>s_unSilencable := unSilencable d\<rparr>"
    unfolding e0 by (simp add: unsilence_kept new_event_def)
  show "s_ok (e_status e0) = None" "s_halted (e_status e0) = JUndefined"
    "s_defaultPrevented (e_status e0) = JUndefined"
    "s_defaultPreventedContinue (e_status e0) = JUndefined"
    "s_preventedFn (e_status e0) = False" "s_defaultFn (e_status e0) = False"
    by (simp_all add: s empty_status_def)
  have h: "get_prop gr e0 ''_unHaltable'' = flag (unHaltable d)"
    unfolding e0
    by (simp add: unsilence_kept merge_payload_kept new_event_def)
       (simp add: get_prop_def new_event_def read_slot_def)
  have p: "get_prop gr e0 ''_unPreventable'' = flag (unPreventable d)"
    unfolding e0
    by (simp add: unsilence_kept merge_payload_kept new_event_def)
       (simp add: get_prop_def new_event_def read_slot_def)
  show "haltable gr e0 = (\<not> unHaltable d)"
    by (simp add: haltable_def h \<open>s_ok (e_status e0) = None\<close>)
  show "preventable_event gr e0 = (\<not> unPreventable d)"
    by (simp add: preventable_event_def p \<open>s_ok (e_status e0) = None\<close>)
qed

lemma resolve_ok_status [simp]:
  "s_ok (e_status (resolve_ok gr e))
     = Some (\<not> truthy (s_halted (e_status e)) \<and> \<not> truthy (s_defaultPrevented (e_status e)))"
  "s_halted (e_status (resolve_ok gr e)) = s_halted (e_status e)"
  "s_defaultPrevented (e_status (resolve_ok gr e)) = s_defaultPrevented (e_status e)"
  "s_defaultPreventedContinue (e_status (resolve_ok gr e)) = s_defaultPreventedContinue (e_status e)"
  "s_preventedFn (e_status (resolve_ok gr e)) = s_preventedFn (e_status e)"
  "s_defaultFn (e_status (resolve_ok gr e)) = s_defaultFn (e_status e)"
  by (simp_all add: resolve_ok_def Let_def)

subsection \<open>The subscribers that a phase invokes\<close>

lemma stage_step_target:
  "stage_step t sg e st new e' st' \<Longrightarrow> e_target e' = e_target e"
  by (simp add: stage_step_def)

lemma stage_step_trace:
  "stage_step t sg e st new e' st' \<Longrightarrow> trace st' = trace st @ new"
  by (simp add: stage_step_def)

lemma stage_step_getter:
  "stage_step t sg e st new e' st' \<Longrightarrow> getterResult st' = getterResult st"
  by (simp add: stage_step_def frame_def)

lemma admits_target: "e_target e' = e_target e \<Longrightarrow> admits cf e' = admits cf e"
  by (rule ext) (simp add: admits_def)

lemma invoke_one_exact:
  assumes "well_behaved nested" "t \<in> runningEvents st" "event_topic e = t"
      and "invoke_one nested t sg cf sb e st = Some r"
      and "trace (snd r) = trace st @ new"
  shows "invoked t sg new = (if admits cf e sb then [sb] else [])"
proof -
  from assms(4) obtain pf r1 where
    pf: "passes_filter nested t sg cf sb e st = Some pf"
    and r1: "(if (\<not> sub_s sb \<or> JObj (sub_o sb) = e_target e) \<and> fst pf
              then call_callback nested t sg (sub_cb sb) (fst (snd pf))
                     (console (Invoked t sg sb) (snd (snd pf)))
              else Some (snd pf)) = Some r1"
    and r: "r = unsilence (fst r1) (snd r1)"
    by (auto simp: invoke_one_def Let_def split: option.splits)
  have fpf: "fst pf = (\<not> cf \<or> (case sub_f sb of None \<Rightarrow> True | Some ff \<Rightarrow> truthy (ret ff)))"
    using pf by (auto simp: passes_filter_def split: if_splits option.splits)
  have ad: "admits cf e sb = ((\<not> sub_s sb \<or> JObj (sub_o sb) = e_target e) \<and> fst pf)"
    by (simp add: admits_def fpf)
  from passes_filter_step[OF assms(1,2) pf] obtain n0 where
    s0: "stage_step t sg e st n0 (fst (snd pf)) (snd (snd pf))" and i0: "invoked t sg n0 = []"
    by blast
  have run0: "t \<in> runningEvents (snd (snd pf))"
    using stage_step_running[OF s0] assms(2) by simp
  have "\<exists>n1. stage_step t sg (fst (snd pf)) (snd (snd pf)) n1 (fst r1) (snd r1)
           \<and> invoked t sg n1 = (if admits cf e sb then [sb] else [])"
  proof (cases "admits cf e sb")
    case True
    let ?u = "Invoked t sg sb"
    from True r1 have cc: "call_callback nested t sg (sub_cb sb) (fst (snd pf))
                     (console ?u (snd (snd pf))) = Some r1" by (auto simp: ad split: if_splits)
    have sa: "stage_step t sg (fst (snd pf)) (snd (snd pf)) [?u] (fst (snd pf)) (console ?u (snd (snd pf)))"
      using stage_step_console[of t sg ?u "fst (snd pf)" "snd (snd pf)"]
      by (simp add: own_entry_def replay_entry_def)
    have "t \<in> runningEvents (console ?u (snd (snd pf)))" using run0 by simp
    from call_callback_step[OF assms(1) this cc] obtain n where
      sb: "stage_step t sg (fst (snd pf)) (console ?u (snd (snd pf))) n (fst r1) (snd r1)"
      and i: "invoked t sg n = []" by blast
    have "invoked t sg ([?u] @ n) = [sb]" using i by simp
    then show ?thesis using stage_step_trans[OF sa sb] True
      by (intro exI[of _ "[?u] @ n"]) simp
  next
    case False
    then have "r1 = snd pf" using r1 by (auto simp: ad split: if_splits)
    then show ?thesis using stage_step_refl[of t sg "fst (snd pf)" "snd (snd pf)"] False
      by (intro exI[of _ "[]"]) simp
  qed
  then obtain n1 where
    s1: "stage_step t sg (fst (snd pf)) (snd (snd pf)) n1 (fst r1) (snd r1)"
    and i1: "invoked t sg n1 = (if admits cf e sb then [sb] else [])" by blast
  have top1: "event_topic (fst r1) = t"
    using stage_step_topic[OF s1] stage_step_topic[OF s0] assms(3) by simp
  from unsilence_step[OF top1, of sg "snd r1"] obtain n2 where
    s2: "stage_step t sg (fst r1) (snd r1) n2 (fst r) (snd r)" and i2: "invoked t sg n2 = []"
    unfolding r by blast
  have "trace (snd r) = trace st @ n0 @ n1 @ n2"
    using stage_step_trace[OF stage_step_trans[OF s0 stage_step_trans[OF s1 s2]]] .
  then have "new = n0 @ n1 @ n2" using assms(5) by simp
  then show ?thesis using i0 i1 i2 by simp
qed

lemma some_loop_exact:
  assumes "well_behaved nested" "t \<in> runningEvents st" "event_topic e = t"
      and "some_loop nested t cf bef l e st = Some r"
      and "trace (snd r) = trace st @ new"
      and "\<not> stopped (getterResult st) (fst r)"
  shows "invoked t (stage_of bef) new = filter (admits cf e) l"
  using assms(2,3,4,5,6)
proof (induction l arbitrary: e st new)
  case Nil
  then show ?case by auto
next
  case (Cons sb l)
  from Cons.prems(3) obtain r1 where
    r1: "invoke_one nested t (stage_of bef) cf sb e st = Some r1"
    and rest: "(if truthy (get_prop (getterResult (snd r1)) (fst r1) ''silent'')
                   \<or> (bef \<and> truthy (s_halted (e_status (fst r1))))
                then Some r1
                else some_loop nested t cf bef l (fst r1) (snd r1)) = Some r"
    by (auto split: option.splits)
  from invoke_one_step[OF assms(1) Cons.prems(1,2) r1] obtain n1 where
    s1: "stage_step t (stage_of bef) e st n1 (fst r1) (snd r1)" by blast
  have g1: "getterResult (snd r1) = getterResult st" using stage_step_getter[OF s1] .
  have i1: "invoked t (stage_of bef) n1 = (if admits cf e sb then [sb] else [])"
    using invoke_one_exact[OF assms(1) Cons.prems(1,2) r1 stage_step_trace[OF s1]] .
  have go: "\<not> (truthy (get_prop (getterResult (snd r1)) (fst r1) ''silent'')
                   \<or> (bef \<and> truthy (s_halted (e_status (fst r1)))))"
  proof
    assume a: "truthy (get_prop (getterResult (snd r1)) (fst r1) ''silent'')
                   \<or> (bef \<and> truthy (s_halted (e_status (fst r1))))"
    then have "r = r1" using rest by (auto split: if_splits)
    then show False using a Cons.prems(5) g1 by (auto simp: stopped_def)
  qed
  then have sl: "some_loop nested t cf bef l (fst r1) (snd r1) = Some r"
    using rest by (auto split: if_splits)
  have run1: "t \<in> runningEvents (snd r1)" using stage_step_running[OF s1] Cons.prems(1) by simp
  have top1: "event_topic (fst r1) = t" using stage_step_topic[OF s1] Cons.prems(2) by simp
  from some_loop_step[OF assms(1) run1 top1 sl] obtain n2 where
    s2: "stage_step t (stage_of bef) (fst r1) (snd r1) n2 (fst r) (snd r)" by blast
  have ns: "\<not> stopped (getterResult (snd r1)) (fst r)" using Cons.prems(5) g1 by simp
  have i2: "invoked t (stage_of bef) n2 = filter (admits cf (fst r1)) l"
    using Cons.IH[OF run1 top1 sl stage_step_trace[OF s2] ns] .
  have "new = n1 @ n2"
    using stage_step_trace[OF stage_step_trans[OF s1 s2]] Cons.prems(4) by simp
  then show ?case
    using i1 i2 admits_target[OF stage_step_target[OF s1]] by simp
qed

lemma invokeSubs_exact:
  assumes "well_behaved nested" "t \<in> runningEvents st" "event_topic e = t"
      and "invokeSubs nested t cf bef subscribers e st = Some r"
      and "trace (snd r) = trace st @ new"
      and "\<not> stopped (getterResult st) (fst r)"
  shows "invoked t (stage_of bef) new = filter (admits cf e) (bucket_list bef subscribers)"
proof (cases "bucket_list bef subscribers = []")
  case True
  then have "r = (e, st)" using assms(4)
    by (auto simp: invokeSubs_def bucket_list_def split: option.splits if_splits)
  then show ?thesis using assms(5) True by simp
next
  case False
  then obtain bk l where sub: "subscribers = Some bk"
    and l: "(if bef then bucket_b bk else bucket_a bk) = Some l"
    by (auto simp: bucket_list_def split: option.splits)
  have "\<not> stopped (getterResult st) e"
  proof
    assume "stopped (getterResult st) e"
    then have "r = (e, st)" using assms(4) sub
      by (auto simp: invokeSubs_def stopped_def split: option.splits if_splits)
    then show False using assms(6) \<open>stopped (getterResult st) e\<close> by simp
  qed
  then have "some_loop nested t cf bef l e st = Some r"
    using assms(4) sub l by (auto simp: invokeSubs_def stopped_def split: option.splits if_splits)
  from some_loop_exact[OF assms(1,2,3) this assms(5,6)] show ?thesis
    using sub l by (auto simp: bucket_list_def)
qed

lemma forEach_invokeSubs_stopped:
  "stopped (getterResult st) e \<Longrightarrow> forEach_invokeSubs nested t bef buckets e st = Some (e, st)"
  by (induction buckets) (auto simp: invokeSubs_def stopped_def split: option.splits)

lemma forEach_invokeSubs_exact:
  assumes "well_behaved nested" "t \<in> runningEvents st" "event_topic e = t"
      and "forEach_invokeSubs nested t bef buckets e st = Some r"
      and "trace (snd r) = trace st @ new"
      and "\<not> stopped (getterResult st) (fst r)"
  shows "invoked t (stage_of bef) new
           = filter (admits True e) (concat (map (bucket_list bef) buckets))"
  using assms(2,3,4,5,6)
proof (induction buckets arbitrary: e st new)
  case Nil
  then show ?case by auto
next
  case (Cons b bs)
  from Cons.prems(3) obtain r1 where
    r1: "invokeSubs nested t True bef b e st = Some r1"
    and rest: "forEach_invokeSubs nested t bef bs (fst r1) (snd r1) = Some r"
    by (auto split: option.splits)
  from invokeSubs_step[OF assms(1) Cons.prems(1,2) r1] obtain n1 where
    s1: "stage_step t (stage_of bef) e st n1 (fst r1) (snd r1)" by blast
  have g1: "getterResult (snd r1) = getterResult st" using stage_step_getter[OF s1] .
  have run1: "t \<in> runningEvents (snd r1)" using stage_step_running[OF s1] Cons.prems(1) by simp
  have top1: "event_topic (fst r1) = t" using stage_step_topic[OF s1] Cons.prems(2) by simp
  have ns1: "\<not> stopped (getterResult st) (fst r1)"
  proof
    assume a: "stopped (getterResult st) (fst r1)"
    then have "r = r1" using forEach_invokeSubs_stopped[of "snd r1" "fst r1" nested t bef bs] rest g1
      by simp
    then show False using a Cons.prems(5) by simp
  qed
  have i1: "invoked t (stage_of bef) n1 = filter (admits True e) (bucket_list bef b)"
    using invokeSubs_exact[OF assms(1) Cons.prems(1,2) r1 stage_step_trace[OF s1] ns1] .
  from forEach_invokeSubs_step[OF assms(1) run1 top1 rest] obtain n2 where
    s2: "stage_step t (stage_of bef) (fst r1) (snd r1) n2 (fst r) (snd r)" by blast
  have ns: "\<not> stopped (getterResult (snd r1)) (fst r)" using Cons.prems(5) g1 by simp
  have i2: "invoked t (stage_of bef) n2
              = filter (admits True (fst r1)) (concat (map (bucket_list bef) bs))"
    using Cons.IH[OF run1 top1 rest stage_step_trace[OF s2] ns] .
  have "new = n1 @ n2"
    using stage_step_trace[OF stage_step_trans[OF s1 s2]] Cons.prems(4) by simp
  then show ?case
    using i1 i2 admits_target[OF stage_step_target[OF s1]] by simp
qed

lemma subscriber_phase_exact:
  assumes "well_behaved nested" "t \<in> runningEvents st" "event_topic e = t"
      and "subscriber_phase nested t bef override buckets e st = Some r"
      and "trace (snd r) = trace st @ new"
      and "\<not> stopped (getterResult st) (fst r)"
  shows "invoked t (stage_of bef) new
           = filter (admits (override = None) e) (phase_subscribers bef override buckets)"
proof (cases override)
  case None
  then show ?thesis using forEach_invokeSubs_exact[OF assms(1,2,3) _ assms(5,6)] assms(4)
    by (simp add: subscriber_phase_def phase_subscribers_def)
next
  case (Some l)
  then have "invokeSubs nested t False bef
               (Some (if bef then \<lparr>bucket_b = Some l, bucket_a = None\<rparr>
                      else \<lparr>bucket_b = None, bucket_a = Some l\<rparr>)) e st = Some r"
    using assms(4) by (simp add: subscriber_phase_def)
  from invokeSubs_exact[OF assms(1,2,3) this assms(5,6)] show ?thesis
    using Some by (auto simp: phase_subscribers_def bucket_list_def split: if_splits)
qed

subsection \<open>The outcome of an emission\<close>

lemma default_phase_calls:
  assumes "well_behaved nested" "t \<in> runningEvents st"
      and "default_phase nested t (Some d) e st = Some r"
      and "trace (snd r) = trace st @ new"
  shows "s_ok (e_status (fst r)) = s_ok (e_status e)"
    and "s_ok (e_status e) = Some True \<Longrightarrow> s_halted (e_status (fst r)) = s_halted (e_status e)"
    and "truthy (s_halted (e_status e)) \<Longrightarrow> new = [] \<and> fst r = e"
    and "\<not> truthy (s_halted (e_status e)) \<Longrightarrow> prevented e \<Longrightarrow>
           default_called t new = []
           \<and> prevented_called t new = (case preventedFn d of None \<Rightarrow> [] | Some f \<Rightarrow> [f])
           \<and> s_preventedFn (e_status (fst r)) = (preventedFn d \<noteq> None \<or> s_preventedFn (e_status e))
           \<and> s_defaultFn (e_status (fst r)) = s_defaultFn (e_status e)"
    and "\<not> truthy (s_halted (e_status e)) \<Longrightarrow> \<not> prevented e \<Longrightarrow>
           prevented_called t new = []
           \<and> default_called t new = (case defaultFn d of None \<Rightarrow> [] | Some f \<Rightarrow> [f])
           \<and> s_defaultFn (e_status (fst r)) = (defaultFn d \<noteq> None \<or> s_defaultFn (e_status e))
           \<and> s_preventedFn (e_status (fst r)) = s_preventedFn (e_status e)"
proof -
  have all: "s_ok (e_status (fst r)) = s_ok (e_status e)
    \<and> (s_ok (e_status e) = Some True \<longrightarrow> s_halted (e_status (fst r)) = s_halted (e_status e))
    \<and> (truthy (s_halted (e_status e)) \<longrightarrow> new = [] \<and> fst r = e)
    \<and> (\<not> truthy (s_halted (e_status e)) \<and> prevented e \<longrightarrow>
           default_called t new = []
           \<and> prevented_called t new = (case preventedFn d of None \<Rightarrow> [] | Some f \<Rightarrow> [f])
           \<and> s_preventedFn (e_status (fst r)) = (preventedFn d \<noteq> None \<or> s_preventedFn (e_status e))
           \<and> s_defaultFn (e_status (fst r)) = s_defaultFn (e_status e))
    \<and> (\<not> truthy (s_halted (e_status e)) \<and> \<not> prevented e \<longrightarrow>
           prevented_called t new = []
           \<and> default_called t new = (case defaultFn d of None \<Rightarrow> [] | Some f \<Rightarrow> [f])
           \<and> s_defaultFn (e_status (fst r)) = (defaultFn d \<noteq> None \<or> s_defaultFn (e_status e))
           \<and> s_preventedFn (e_status (fst r)) = s_preventedFn (e_status e))"
  proof (cases "truthy (s_halted (e_status e))")
    case True
    then have "r = (e, st)" using default_phase_skip[of "Some d" e nested t st] assms(3) by simp
    then show ?thesis using True assms(4) by simp
  next
    case nh: False
    show ?thesis
    proof (cases "(if prevented e then preventedFn d else defaultFn d)")
      case None
      then have "r = (assign e ''returnValue'' JUndefined, st)"
        using default_phase_no_fn[OF refl nh None] assms(3) by simp
      then show ?thesis using nh None assms(4) by (auto split: if_splits)
    next
      case (Some f)
      show ?thesis
      proof (cases "prevented e")
        case True
        then have pf: "preventedFn d = Some f" using Some by simp
        let ?u = "PreventedFnCalled t f"
        let ?e = "e\<lparr>e_status := (e_status e)\<lparr>s_preventedFn := True\<rparr>\<rparr>"
        from default_phase_prevented[OF assms(1,2) refl nh True pf assms(3)] obtain new' e' where
          s: "stage_step t Default ?e (console ?u st) new' e' (snd r)"
          and r: "fst r = assign e' ''returnValue'' (ret f)" by blast
        have run: "t \<in> runningEvents (console ?u st)" using assms(2) by simp
        have n: "new = ?u # new'" using s assms(4) by (simp add: stage_step_def)
        have e': "e' = replay (getterResult (console ?u st)) t Default new' ?e"
          using s by (simp add: stage_step_def)
        have h: "s_ok (e_status e) = Some True \<longrightarrow> s_halted (e_status e') = s_halted (e_status e)"
          unfolding e' by (simp add: replay_halted haltable_def)
        show ?thesis
          using stage_step_other(1,2)[OF s run] nh True pf h
          by (simp add: n r e')
      next
        case False
        then have df: "defaultFn d = Some f" using Some by simp
        let ?u = "DefaultFnCalled t f"
        let ?e = "e\<lparr>e_status := (e_status e)\<lparr>s_defaultFn := True\<rparr>\<rparr>"
        from default_phase_default[OF assms(1,2) refl nh False df assms(3)] obtain new' e' where
          s: "stage_step t Default ?e (console ?u st) new' e' (snd r)"
          and r: "fst r = assign e' ''returnValue'' (ret f)" by blast
        have run: "t \<in> runningEvents (console ?u st)" using assms(2) by simp
        have n: "new = ?u # new'" using s assms(4) by (simp add: stage_step_def)
        have e': "e' = replay (getterResult (console ?u st)) t Default new' ?e"
          using s by (simp add: stage_step_def)
        have h: "s_ok (e_status e) = Some True \<longrightarrow> s_halted (e_status e') = s_halted (e_status e)"
          unfolding e' by (simp add: replay_halted haltable_def)
        show ?thesis
          using stage_step_other(1,2)[OF s run] nh False df h
          by (simp add: n r e')
      qed
    qed
  qed
  show "s_ok (e_status (fst r)) = s_ok (e_status e)" using all by blast
  show "s_ok (e_status e) = Some True \<Longrightarrow> s_halted (e_status (fst r)) = s_halted (e_status e)"
    using all by blast
  show "truthy (s_halted (e_status e)) \<Longrightarrow> new = [] \<and> fst r = e" using all by blast
  show "\<not> truthy (s_halted (e_status e)) \<Longrightarrow> prevented e \<Longrightarrow>
           default_called t new = []
           \<and> prevented_called t new = (case preventedFn d of None \<Rightarrow> [] | Some f \<Rightarrow> [f])
           \<and> s_preventedFn (e_status (fst r)) = (preventedFn d \<noteq> None \<or> s_preventedFn (e_status e))
           \<and> s_defaultFn (e_status (fst r)) = s_defaultFn (e_status e)"
    using all by blast
  show "\<not> truthy (s_halted (e_status e)) \<Longrightarrow> \<not> prevented e \<Longrightarrow>
           prevented_called t new = []
           \<and> default_called t new = (case defaultFn d of None \<Rightarrow> [] | Some f \<Rightarrow> [f])
           \<and> s_defaultFn (e_status (fst r)) = (defaultFn d \<noteq> None \<or> s_defaultFn (e_status e))
           \<and> s_preventedFn (e_status (fst r)) = s_preventedFn (e_status e)"
    using all by blast
qed


text \<open>
  What an emission of a defined topic does, from the calls that the before-subscribers made
  to the event object: \<open>H\<close>, \<open>P\<close> and \<open>K\<close> say that a call of \<open>halt\<close>, of \<open>preventDefault\<close>
  and of \<open>preventDefaultContinue\<close> took effect.
\<close>

lemma emission_summary:
  assumes "emit_private n emitter0 customEvent payload0 bs as st = Some (Some e, st')"
      and "t = qualify emitter0 customEvent"
      and "ce st t = Some d"
      and "match_customevent t = Some ex"
      and "new = new_trace st st'"
      and "calls = api_calls t Before new"
      and "H = (\<not> unHaltable d \<and> halts calls \<noteq> [])"
      and "P = (\<not> unPreventable d \<and> prevents calls \<noteq> [])"
      and "K = (\<not> unPreventable d \<and> continues calls \<noteq> [])"
  shows "s_ok (e_status e) = Some (\<not> H \<and> \<not> P)"
    and "H \<Longrightarrow> s_halted (e_status e) = reason_or_true (last (halts calls))"
    and "H \<Longrightarrow> default_called t new = [] \<and> prevented_called t new = []"
    and "\<not> H \<Longrightarrow> P \<or> K \<Longrightarrow>
           default_called t new = []
           \<and> prevented_called t new = (case preventedFn d of None \<Rightarrow> [] | Some f \<Rightarrow> [f])
           \<and> s_preventedFn (e_status e) = (preventedFn d \<noteq> None)
           \<and> \<not> s_defaultFn (e_status e)"
    and "\<not> H \<Longrightarrow> \<not> P \<Longrightarrow> \<not> K \<Longrightarrow>
           prevented_called t new = []
           \<and> default_called t new = (case defaultFn d of None \<Rightarrow> [] | Some f \<Rightarrow> [f])
           \<and> s_defaultFn (e_status e) = (defaultFn d \<noteq> None)
           \<and> \<not> s_preventedFn (e_status e)"
    and "H \<or> P \<Longrightarrow> invoked t After new = []"
    and "\<not> H \<Longrightarrow> \<not> P \<Longrightarrow> \<not> truthy (get_prop (getterResult st) e ''silent'') \<Longrightarrow>
           invoked t After new
             = filter (admits (as = None) e)
                 (phase_subscribers False as (resolve_buckets (subs st) t ex))"
proof -
  obtain em ev where ex: "ex = (em, ev)" by (cases ex)
  let ?st1 = "st\<lparr>runningEvents := insert t (runningEvents st)\<rparr>"
  let ?gr = "getterResult st"
  let ?bk = "resolve_buckets (subs st) t (em, ev)"
  have m: "match_customevent t = Some (em, ev)" using assms(4) ex by simp
  from emit_private_Some[OF assms(1)] m assms(2) obtain st2 where
    dsp: "dispatch (nested_emit n) emitter0 t (em, ev) payload0 bs as ?st1 = Some (e, st2)"
    and st': "st' = st2\<lparr>runningEvents := runningEvents st2 - {t}\<rparr>"
    by auto
  have run: "t \<in> runningEvents ?st1" by simp
  note wb = well_behaved_nested_emit[of n]
  from dispatch_phases[OF wb run m dsp]
  obtain e0 st0 n0 e1 st1 n1 e2 st2' n2 n3 where
    b: "build_event emitter0 ev em (ce ?st1 t) payload0 ?st1 = (e0, st0)"
    and i0: "\<forall>sg. invoked t sg n0 = [] \<and> api_calls t sg n0 = []"
    and d0: "default_called t n0 = [] \<and> prevented_called t n0 = []"
    and s1: "stage_step t Before e0 st0 n1 e1 st1"
    and dp: "default_phase (nested_emit n) t (ce ?st1 t) (resolve_ok (getterResult ?st1) e1) st1
               = Some (e2, st2')"
    and s2: "dispatch_step t st1 n2 st2'"
    and i2: "\<forall>sg. invoked t sg n2 = []" and a2: "api_calls t Before n2 = []"
    and s3: "stage_step t After e2 st2' n3 (fst (e, st2)) (snd (e, st2))"
    and sk: "s_ok (e_status e2) \<noteq> Some True \<longrightarrow> n3 = [] \<and> (e, st2) = (e2, st2')"
    and tr: "trace (snd (e, st2)) = trace ?st1 @ n0 @ n1 @ n2 @ n3"
    and r0: "t \<in> runningEvents st0" and r1: "t \<in> runningEvents st1"
    and r2: "t \<in> runningEvents st2'"
    and g0: "getterResult st0 = getterResult ?st1" and g2: "getterResult st2' = getterResult ?st1"
    and top2: "event_topic e2 = t"
    and ap: "after_phase (nested_emit n) t as (resolve_buckets (subs ?st1) t (em, ev)) e2 st2'
               = Some (e, st2)"
    by metis
  have nt: "new = n0 @ n1 @ n2 @ n3" using tr by (simp add: assms(5) new_trace_def st')
  have calls: "calls = api_calls t Before n1"
    using i0 a2 stage_step_other(4)[OF s3 r2, of Before] by (simp add: assms(6) nt)
  have dc: "default_called t new = default_called t n2"
    using d0 stage_step_other(1)[OF s1 r0] stage_step_other(1)[OF s3 r2] by (simp add: nt)
  have pc: "prevented_called t new = prevented_called t n2"
    using d0 stage_step_other(2)[OF s1 r0] stage_step_other(2)[OF s3 r2] by (simp add: nt)
  have ia: "invoked t After new = invoked t After n3"
    using i0 i2 stage_step_other(3)[OF s1 r0, of After] by (simp add: nt)
  have b': "build_event emitter0 ev em (Some d) payload0 ?st1 = (e0, st0)"
    using b assms(3) by simp
  note fresh = build_event_fresh[OF b']
  have e1: "e1 = replay (getterResult st0) t Before n1 e0" using s1 by (simp add: stage_step_def)
  have ok1: "s_ok (e_status e1) = None" by (simp add: e1 fresh(1))
  have h1: "s_halted (e_status e1)
              = (if H then reason_or_true (last (halts calls)) else JUndefined)"
    by (simp add: e1 replay_halted fresh calls assms(7))
  have p1: "s_defaultPrevented (e_status e1)
              = (if P then reason_or_true (last (prevents calls)) else JUndefined)"
    by (simp add: e1 replay_prevented fresh calls assms(8))
  have k1: "s_defaultPreventedContinue (e_status e1)
              = (if K then reason_or_true (last (continues calls)) else JUndefined)"
    by (simp add: e1 replay_continued fresh calls assms(9))
  have f1: "\<not> s_preventedFn (e_status e1)" "\<not> s_defaultFn (e_status e1)"
    by (simp_all add: e1 fresh)
  let ?r = "resolve_ok (getterResult ?st1) e1"
  have okr: "s_ok (e_status ?r) = Some (\<not> H \<and> \<not> P)" by (simp add: h1 p1)
  have hr: "truthy (s_halted (e_status ?r)) = H" by (simp add: h1)
  have pr: "prevented ?r = (P \<or> K)" by (simp add: prevented_def p1 k1)
  have dp': "default_phase (nested_emit n) t (Some d) ?r st1 = Some (e2, st2')"
    using dp assms(3) by simp
  have tr2: "trace (snd (e2, st2')) = trace st1 @ n2" using s2 by (simp add: dispatch_step_def)
  note dpc = default_phase_calls[OF wb r1 dp' tr2]
  have ok2: "s_ok (e_status e2) = Some (\<not> H \<and> \<not> P)" using dpc(1) okr by simp
  have e: "e = replay (getterResult st2') t After n3 e2" using s3 by (simp add: stage_step_def)
  show ok: "s_ok (e_status e) = Some (\<not> H \<and> \<not> P)" by (simp add: e ok2)
  have skip: "H \<or> P \<Longrightarrow> n3 = [] \<and> e = e2" using sk ok2 by auto
  show "H \<Longrightarrow> s_halted (e_status e) = reason_or_true (last (halts calls))"
    using skip dpc(3) hr h1 by simp
  show "H \<Longrightarrow> default_called t new = [] \<and> prevented_called t new = []"
    using dpc(3) hr by (simp add: dc pc)
  show "\<not> H \<Longrightarrow> P \<or> K \<Longrightarrow>
           default_called t new = []
           \<and> prevented_called t new = (case preventedFn d of None \<Rightarrow> [] | Some f \<Rightarrow> [f])
           \<and> s_preventedFn (e_status e) = (preventedFn d \<noteq> None)
           \<and> \<not> s_defaultFn (e_status e)"
    using dpc(4) hr pr f1 by (simp add: dc pc e)
  show "\<not> H \<Longrightarrow> \<not> P \<Longrightarrow> \<not> K \<Longrightarrow>
           prevented_called t new = []
           \<and> default_called t new = (case defaultFn d of None \<Rightarrow> [] | Some f \<Rightarrow> [f])
           \<and> s_defaultFn (e_status e) = (defaultFn d \<noteq> None)
           \<and> \<not> s_preventedFn (e_status e)"
    using dpc(5) hr pr f1 by (simp add: dc pc e)
  show "H \<or> P \<Longrightarrow> invoked t After new = []" using skip by (simp add: ia)
  show "invoked t After new
          = filter (admits (as = None) e) (phase_subscribers False as (resolve_buckets (subs st) t ex))"
    if nH: "\<not> H" and nP: "\<not> P" and ns: "\<not> truthy (get_prop (getterResult st) e ''silent'')"
  proof -
    have ok2': "s_ok (e_status e2) = Some True" using ok2 nH nP by simp
    then have sp: "subscriber_phase (nested_emit n) t False as ?bk e2 st2' = Some (e, st2)"
      using ap by (simp add: after_phase_def)
    have h2: "\<not> truthy (s_halted (e_status e2))"
      using dpc(2) okr hr nH nP by simp
    have he: "s_halted (e_status e) = s_halted (e_status e2)"
      by (simp add: e replay_halted haltable_def ok2')
    have nst: "\<not> stopped (getterResult st2') (fst (e, st2))"
      using ns h2 he g2 by (simp add: stopped_def)
    have tr3: "trace (snd (e, st2)) = trace st2' @ n3" using s3 by (simp add: stage_step_def)
    from subscriber_phase_exact[OF wb r2 top2 sp tr3 nst]
    have "invoked t After n3 = filter (admits (as = None) e2) (phase_subscribers False as ?bk)"
      by (simp add: stage_of_def)
    moreover have "admits (as = None) e2 = admits (as = None) e"
      using admits_target[of e e2] by (simp add: e)
    ultimately show ?thesis by (simp add: ia ex)
  qed
qed

section \<open>Enough fuel\<close>

lemma script_topics_Nil [simp]: "script_topics [] = {}"
  by (simp add: script_topics_def map_filter_def)

lemma script_topics_Cons:
  "script_topics (x # xs) =
     (case x of Emit emitter0 customEvent payload0 \<Rightarrow> {qualify emitter0 customEvent} | _ \<Rightarrow> {})
     \<union> script_topics xs"
  by (cases x) (simp_all add: script_topics_def map_filter_def)

lemma serves_frame: "serves nested T st0 \<Longrightarrow> frame st0 st \<Longrightarrow> serves nested T st"
  unfolding serves_def using frame_trans by blast

lemma run_action_progress:
  assumes "serves nested T st" "script_topics [x] \<subseteq> T"
  shows "\<exists>r. run_action nested x e (console (Api t sg x) st) = Some r"
proof (cases x)
  case (Emit em c p)
  then have "qualify em c \<in> T" using assms(2) by (simp add: script_topics_Cons)
  then have "nested em c p (console (Api t sg x) st) \<noteq> None"
    using assms(1) unfolding serves_def by simp
  then show ?thesis using Emit by (auto simp: run_action_def)
qed (simp_all add: run_action_def)

lemma run_actions_progress:
  assumes "well_behaved nested"
  shows "t \<in> runningEvents st \<Longrightarrow> serves nested T st \<Longrightarrow> script_topics xs \<subseteq> T \<Longrightarrow>
         \<exists>r. run_actions nested t sg xs e st = Some r"
proof (induction xs arbitrary: e st)
  case Nil
  then show ?case by simp
next
  case (Cons x xs)
  have tx: "script_topics [x] \<subseteq> T" and txs: "script_topics xs \<subseteq> T"
    using Cons.prems(3) by (auto simp: script_topics_Cons[of x xs] script_topics_Cons[of x "[]"])
  from run_action_progress[OF Cons.prems(2) tx] obtain r1 where
    r1: "run_action nested x e (console (Api t sg x) st) = Some r1" by blast
  from run_action_step[OF assms Cons.prems(1) r1] obtain n1 where
    s1: "stage_step t sg e st (Api t sg x # n1) (fst r1) (snd r1)" by blast
  have run1: "t \<in> runningEvents (snd r1)" using stage_step_running[OF s1] Cons.prems(1) by simp
  have sv1: "serves nested T (snd r1)" using serves_frame[OF Cons.prems(2) stage_step_frame[OF s1]] .
  from Cons.IH[OF run1 sv1 txs] obtain r where
    "run_actions nested t sg xs (fst r1) (snd r1) = Some r" by blast
  then show ?case using r1 by simp
qed

lemma call_callback_progress:
  assumes "well_behaved nested" "t \<in> runningEvents st" "serves nested T st"
      and "script_topics (body (callback_fn c)) \<subseteq> T"
  shows "\<exists>r. call_callback nested t sg c e st = Some r"
proof (cases c)
  case (Plain f)
  then show ?thesis using run_actions_progress[OF assms(1,2,3)] assms(4)
    by (simp add: call_callback_def callback_fn_def)
next
  case (Wrapper h f)
  let ?u = "UserCallback t sg h f"
  have "t \<in> runningEvents (console ?u st)" using assms(2) by simp
  moreover have "serves nested T (console ?u st)" using serves_frame[OF assms(3)] by simp
  moreover have "script_topics (body f) \<subseteq> T" using assms(4) Wrapper by (simp add: callback_fn_def)
  ultimately obtain r0 where
    "run_actions nested t sg (body f) e (console ?u st) = Some r0"
    using run_actions_progress[OF assms(1)] by blast
  then show ?thesis using Wrapper by (simp add: call_callback_def)
qed

lemma passes_filter_progress:
  assumes "well_behaved nested" "t \<in> runningEvents st" "serves nested T st"
      and "subscriber_topics sb \<subseteq> T"
  shows "\<exists>r. passes_filter nested t sg cf sb e st = Some r"
proof (cases "cf \<and> sub_f sb \<noteq> None")
  case False
  then show ?thesis by (auto simp: passes_filter_def)
next
  case True
  then obtain ff where ff: "sub_f sb = Some ff" and cf: cf by auto
  let ?u = "FilterCalled t sg sb"
  have "t \<in> runningEvents (console ?u st)" using assms(2) by simp
  moreover have "serves nested T (console ?u st)" using serves_frame[OF assms(3)] by simp
  moreover have "script_topics (body ff) \<subseteq> T" using assms(4) ff by (simp add: subscriber_topics_def)
  ultimately obtain r0 where
    "run_actions nested t sg (body ff) e (console ?u st) = Some r0"
    using run_actions_progress[OF assms(1)] by blast
  then show ?thesis using ff cf by (simp add: passes_filter_def)
qed

lemma invoke_one_progress:
  assumes "well_behaved nested" "t \<in> runningEvents st" "serves nested T st"
      and "subscriber_topics sb \<subseteq> T"
  shows "\<exists>r. invoke_one nested t sg cf sb e st = Some r"
proof -
  from passes_filter_progress[OF assms] obtain pf where
    pf: "passes_filter nested t sg cf sb e st = Some pf" by blast
  from passes_filter_step[OF assms(1,2) pf] obtain n0 where
    s0: "stage_step t sg e st n0 (fst (snd pf)) (snd (snd pf))" by blast
  let ?u = "Invoked t sg sb"
  have "t \<in> runningEvents (console ?u (snd (snd pf)))"
    using stage_step_running[OF s0] assms(2) by simp
  moreover have "serves nested T (console ?u (snd (snd pf)))"
    using serves_frame[OF serves_frame[OF assms(3) stage_step_frame[OF s0]]] by simp
  moreover have "script_topics (body (callback_fn (sub_cb sb))) \<subseteq> T"
    using assms(4) by (simp add: subscriber_topics_def)
  ultimately obtain r1 where
    "call_callback nested t sg (sub_cb sb) (fst (snd pf)) (console ?u (snd (snd pf))) = Some r1"
    using call_callback_progress[OF assms(1)] by blast
  then show ?thesis using pf by (simp add: invoke_one_def Let_def)
qed

lemma some_loop_progress:
  assumes "well_behaved nested"
  shows "t \<in> runningEvents st \<Longrightarrow> event_topic e = t \<Longrightarrow> serves nested T st \<Longrightarrow>
         \<forall>sb \<in> set l. subscriber_topics sb \<subseteq> T \<Longrightarrow>
         \<exists>r. some_loop nested t cf bef l e st = Some r"
proof (induction l arbitrary: e st)
  case Nil
  then show ?case by simp
next
  case (Cons sb l)
  have "subscriber_topics sb \<subseteq> T" using Cons.prems(4) by simp
  from invoke_one_progress[OF assms Cons.prems(1,3) this] obtain r1 where
    r1: "invoke_one nested t (stage_of bef) cf sb e st = Some r1" by blast
  from invoke_one_step[OF assms Cons.prems(1,2) r1] obtain n1 where
    s1: "stage_step t (stage_of bef) e st n1 (fst r1) (snd r1)" by blast
  have run1: "t \<in> runningEvents (snd r1)" using stage_step_running[OF s1] Cons.prems(1) by simp
  have top1: "event_topic (fst r1) = t" using stage_step_topic[OF s1] Cons.prems(2) by simp
  have sv1: "serves nested T (snd r1)" using serves_frame[OF Cons.prems(3) stage_step_frame[OF s1]] .
  have "\<forall>sb \<in> set l. subscriber_topics sb \<subseteq> T" using Cons.prems(4) by simp
  from Cons.IH[OF run1 top1 sv1 this] obtain r where
    "some_loop nested t cf bef l (fst r1) (snd r1) = Some r" by blast
  then show ?case using r1 by simp
qed

lemma invokeSubs_progress:
  assumes "well_behaved nested" "t \<in> runningEvents st" "event_topic e = t" "serves nested T st"
      and "\<forall>sb \<in> set (bucket_list bef subscribers). subscriber_topics sb \<subseteq> T"
  shows "\<exists>r. invokeSubs nested t cf bef subscribers e st = Some r"
proof (cases "bucket_list bef subscribers = []")
  case True
  then show ?thesis
    using some_loop_progress[OF assms(1,2,3,4), of "[]" cf bef]
    by (auto simp: invokeSubs_def bucket_list_def split: option.splits)
next
  case False
  then obtain bk l where sub: "subscribers = Some bk"
    and l: "(if bef then bucket_b bk else bucket_a bk) = Some l"
    by (auto simp: bucket_list_def split: option.splits)
  have "\<forall>sb \<in> set l. subscriber_topics sb \<subseteq> T"
    using assms(5) sub l by (auto simp: bucket_list_def)
  from some_loop_progress[OF assms(1,2,3,4) this, of cf bef] show ?thesis
    using sub l by (auto simp: invokeSubs_def)
qed

lemma forEach_invokeSubs_progress:
  assumes "well_behaved nested"
  shows "t \<in> runningEvents st \<Longrightarrow> event_topic e = t \<Longrightarrow> serves nested T st \<Longrightarrow>
         \<forall>sb \<in> set (concat (map (bucket_list bef) buckets)). subscriber_topics sb \<subseteq> T \<Longrightarrow>
         \<exists>r. forEach_invokeSubs nested t bef buckets e st = Some r"
proof (induction buckets arbitrary: e st)
  case Nil
  then show ?case by simp
next
  case (Cons b bs)
  have "\<forall>sb \<in> set (bucket_list bef b). subscriber_topics sb \<subseteq> T" using Cons.prems(4) by simp
  from invokeSubs_progress[OF assms Cons.prems(1,2,3) this] obtain r1 where
    r1: "invokeSubs nested t True bef b e st = Some r1" by blast
  from invokeSubs_step[OF assms Cons.prems(1,2) r1] obtain n1 where
    s1: "stage_step t (stage_of bef) e st n1 (fst r1) (snd r1)" by blast
  have run1: "t \<in> runningEvents (snd r1)" using stage_step_running[OF s1] Cons.prems(1) by simp
  have top1: "event_topic (fst r1) = t" using stage_step_topic[OF s1] Cons.prems(2) by simp
  have sv1: "serves nested T (snd r1)" using serves_frame[OF Cons.prems(3) stage_step_frame[OF s1]] .
  have "\<forall>sb \<in> set (concat (map (bucket_list bef) bs)). subscriber_topics sb \<subseteq> T"
    using Cons.prems(4) by simp
  from Cons.IH[OF run1 top1 sv1 this] obtain r where
    "forEach_invokeSubs nested t bef bs (fst r1) (snd r1) = Some r" by blast
  then show ?case using r1 by simp
qed

lemma subscriber_phase_progress:
  assumes "well_behaved nested" "t \<in> runningEvents st" "event_topic e = t" "serves nested T st"
      and "\<forall>sb \<in> set (phase_subscribers bef override buckets). subscriber_topics sb \<subseteq> T"
  shows "\<exists>r. subscriber_phase nested t bef override buckets e st = Some r"
proof (cases override)
  case None
  then show ?thesis
    using forEach_invokeSubs_progress[OF assms(1,2,3,4), of bef buckets] assms(5)
    by (simp add: subscriber_phase_def phase_subscribers_def)
next
  case (Some l)
  let ?b = "Some (if bef then \<lparr>bucket_b = Some l, bucket_a = None\<rparr>
                  else \<lparr>bucket_b = None, bucket_a = Some l\<rparr>)"
  have "\<forall>sb \<in> set (bucket_list bef ?b). subscriber_topics sb \<subseteq> T"
    using assms(5) Some by (auto simp: phase_subscribers_def bucket_list_def)
  from invokeSubs_progress[OF assms(1,2,3,4) this, of False] show ?thesis
    using Some by (simp add: subscriber_phase_def)
qed

lemma default_phase_progress:
  assumes "well_behaved nested" "t \<in> runningEvents st" "serves nested T st"
      and "definition_topics cd \<subseteq> T"
  shows "\<exists>r. default_phase nested t cd e st = Some r"
proof (cases cd)
  case None
  then show ?thesis by (simp add: default_phase_def)
next
  case (Some d)
  have a: "\<exists>r. run_actions nested t Default (body f) e' (console x st) = Some r"
    if "script_topics (body f) \<subseteq> T" for f e' x
  proof -
    have "t \<in> runningEvents (console x st)" using assms(2) by simp
    moreover have "serves nested T (console x st)" using serves_frame[OF assms(3)] by simp
    ultimately show ?thesis using run_actions_progress[OF assms(1)] that by blast
  qed
  have p: "\<And>f. preventedFn d = Some f \<Longrightarrow> script_topics (body f) \<subseteq> T"
    and q: "\<And>f. defaultFn d = Some f \<Longrightarrow> script_topics (body f) \<subseteq> T"
    using assms(4) Some by (auto simp: definition_topics_def)
  show ?thesis
  proof (cases "truthy (s_halted (e_status e))")
    case True
    then show ?thesis using Some by (simp add: default_phase_def)
  next
    case nh: False
    show ?thesis
    proof (cases "truthy (s_defaultPrevented (e_status e))
                  \<or> truthy (s_defaultPreventedContinue (e_status e))")
      case True
      show ?thesis
      proof (cases "preventedFn d")
        case None
        then show ?thesis using Some nh True by (simp add: default_phase_def)
      next
        case (Some f)
        from a[OF p[OF Some]] obtain r0 where
          "run_actions nested t Default (body f)
             (e\<lparr>e_status := (e_status e)\<lparr>s_preventedFn := True\<rparr>\<rparr>)
             (console (PreventedFnCalled t f) st) = Some r0" by blast
        then show ?thesis using \<open>cd = Some d\<close> nh True Some by (simp add: default_phase_def)
      qed
    next
      case False
      show ?thesis
      proof (cases "defaultFn d")
        case None
        then show ?thesis using Some nh False by (simp add: default_phase_def)
      next
        case (Some f)
        from a[OF q[OF Some]] obtain r0 where
          "run_actions nested t Default (body f)
             (e\<lparr>e_status := (e_status e)\<lparr>s_defaultFn := True\<rparr>\<rparr>)
             (console (DefaultFnCalled t f) st) = Some r0" by blast
        then show ?thesis using \<open>cd = Some d\<close> nh False Some by (simp add: default_phase_def)
      qed
    qed
  qed
qed

lemma after_phase_progress:
  assumes "well_behaved nested" "t \<in> runningEvents st" "event_topic e = t" "serves nested T st"
      and "\<forall>sb \<in> set (phase_subscribers False override buckets). subscriber_topics sb \<subseteq> T"
  shows "\<exists>r. after_phase nested t override buckets e st = Some r"
  using subscriber_phase_progress[OF assms] by (simp add: after_phase_def)


lemma scripts_within_frame: "frame st st' \<Longrightarrow> scripts_within T st \<Longrightarrow> scripts_within T st'"
  by (simp add: scripts_within_def frame_def)

lemma scripts_within_running [simp]:
  "scripts_within T (st\<lparr>runningEvents := R\<rparr>) = scripts_within T st"
  by (simp add: scripts_within_def)

lemma bucket_within:
  assumes "scripts_within T st" "sb \<in> set (bucket_list bef (map_of (subs st) k))"
  shows "subscriber_topics sb \<subseteq> T"
proof (cases "map_of (subs st) k")
  case None
  then show ?thesis using assms(2) by (simp add: bucket_list_def)
next
  case (Some bk)
  then have "(k, bk) \<in> set (subs st)" by (rule map_of_SomeD)
  then have "\<forall>sb \<in> set (bucket_list True (Some bk)) \<union> set (bucket_list False (Some bk)).
               subscriber_topics sb \<subseteq> T"
    using assms(1) unfolding scripts_within_def by fastforce
  then show ?thesis using assms(2) Some by (cases bef) auto
qed

lemma phase_within:
  assumes "covers T st bs as"
  shows "\<forall>sb \<in> set (phase_subscribers True bs (resolve_buckets (subs st) t ex)).
           subscriber_topics sb \<subseteq> T"
    and "\<forall>sb \<in> set (phase_subscribers False as (resolve_buckets (subs st) t ex)).
           subscriber_topics sb \<subseteq> T"
  using assms bucket_within[of T st]
  by (auto simp: covers_def phase_subscribers_def resolve_buckets_def Let_def override_list_def
      split: option.splits)

lemma dispatch_progress:
  assumes "well_behaved nested" "t \<in> runningEvents st" "match_customevent t = Some (em, ev)"
      and "serves nested T st" "covers T st bs as" "definition_topics (ce st t) \<subseteq> T"
  shows "\<exists>r. dispatch nested emitter0 t (em, ev) payload0 bs as st = Some r"
proof -
  have t: "t = em @ '':'' @ ev" using match_customevent_split assms(3) by simp
  let ?bk = "resolve_buckets (subs st) t (em, ev)"
  obtain e0 st0 where b: "build_event emitter0 ev em (ce st t) payload0 st = (e0, st0)"
    by (cases "build_event emitter0 ev em (ce st t) payload0 st")
  from build_event_step(1)[OF b t] have top0: "event_topic e0 = t" .
  from build_event_step(2)[OF b t, of Before] obtain n0 where s0: "dispatch_step t st n0 st0"
    by blast
  have f0: "frame st st0" using s0 by (simp add: dispatch_step_def)
  have run0: "t \<in> runningEvents st0" using dispatch_step_running[OF s0] assms(2) by simp
  have sv0: "serves nested T st0" using serves_frame[OF assms(4) f0] .
  from subscriber_phase_progress[OF assms(1) run0 top0 sv0 phase_within(1)[OF assms(5)]]
  obtain r1 where p1: "subscriber_phase nested t True bs ?bk e0 st0 = Some r1" by blast
  from subscriber_phase_step[OF assms(1) run0 top0 p1] obtain n1 where
    s1: "stage_step t (stage_of True) e0 st0 n1 (fst r1) (snd r1)" by blast
  have run1: "t \<in> runningEvents (snd r1)" using stage_step_running[OF s1] run0 by simp
  have top1: "event_topic (fst r1) = t" using stage_step_topic[OF s1] top0 by simp
  have sv1: "serves nested T (snd r1)" using serves_frame[OF sv0 stage_step_frame[OF s1]] .
  let ?e1 = "resolve_ok (getterResult (snd r1)) (fst r1)"
  from default_phase_progress[OF assms(1) run1 sv1 assms(6)] obtain r2 where
    p2: "default_phase nested t (ce st t) ?e1 (snd r1) = Some r2" by blast
  from default_phase_step[OF assms(1) run1 p2, of Before] obtain n2 where
    s2: "dispatch_step t (snd r1) n2 (snd r2)"
    and top2: "event_topic (fst r2) = event_topic ?e1" by blast
  have run2: "t \<in> runningEvents (snd r2)" using dispatch_step_running[OF s2] run1 by simp
  have top2': "event_topic (fst r2) = t" using top2 top1 by simp
  have f2: "frame (snd r1) (snd r2)" using s2 by (simp add: dispatch_step_def)
  have sv2: "serves nested T (snd r2)" using serves_frame[OF sv1 f2] .
  from after_phase_progress[OF assms(1) run2 top2' sv2 phase_within(2)[OF assms(5)]]
  obtain r3 where p3: "after_phase nested t as ?bk (fst r2) (snd r2) = Some r3" by blast
  show ?thesis using b p1 p2 p3 by (simp add: dispatch_def Let_def)
qed

lemma emit_body_progress:
  assumes "well_behaved nested" "covers T st bs as"
      and "definition_topics (ce st (qualify emitter0 c)) \<subseteq> T"
      and "serves nested T (st\<lparr>runningEvents := insert (qualify emitter0 c) (runningEvents st)\<rparr>)"
  shows "\<exists>r. emit_body nested emitter0 c payload0 bs as st = Some r"
proof (cases "match_customevent (qualify emitter0 c)")
  case None
  then show ?thesis by (simp add: emit_body_def Let_def)
next
  case (Some ex)
  obtain em ev where ex: "ex = (em, ev)" by (cases ex)
  let ?t = "qualify emitter0 c"
  let ?st1 = "st\<lparr>runningEvents := insert ?t (runningEvents st)\<rparr>"
  have cv: "covers T ?st1 bs as" using assms(2) by (simp add: covers_def)
  have m: "match_customevent ?t = Some (em, ev)" using Some ex by simp
  have run: "?t \<in> runningEvents ?st1" by simp
  have dt: "definition_topics (ce ?st1 ?t) \<subseteq> T" using assms(3) by simp
  from dispatch_progress[OF assms(1) run m assms(4) cv dt] obtain r where
    "dispatch nested emitter0 ?t (em, ev) payload0 bs as ?st1 = Some r" by blast
  then show ?thesis using Some ex by (simp add: emit_body_def Let_def)
qed

lemma card_Diff_insert_less:
  assumes "finite T" "t \<in> T" "t \<notin> R" "card (T - R) \<le> Suc n"
  shows "card (T - insert t R) \<le> n"
proof -
  have "T - insert t R = (T - R) - {t}" by auto
  moreover have "t \<in> T - R" using assms(2,3) by simp
  ultimately have "card (T - insert t R) = card (T - R) - 1"
    using assms(1) by (simp add: card_Diff_singleton)
  moreover have "card (T - R) > 0" using \<open>t \<in> T - R\<close> assms(1) by (auto simp: card_gt_0_iff)
  ultimately show ?thesis using assms(4) by simp
qed

lemma nested_emit_progress:
  assumes "finite T"
  shows "scripts_within T st \<Longrightarrow> qualify emitter0 c \<in> T \<Longrightarrow>
         card (T - runningEvents st) < n \<Longrightarrow> nested_emit n emitter0 c payload0 st \<noteq> None"
proof (induction n arbitrary: st emitter0 c payload0)
  case 0
  then show ?case by simp
next
  case (Suc n)
  let ?t = "qualify emitter0 c"
  let ?st1 = "st\<lparr>runningEvents := insert ?t (runningEvents st)\<rparr>"
  show ?case
  proof (cases "?t \<in> runningEvents st \<or> match_customevent ?t = None")
    case True
    then show ?thesis by (auto simp: emit_body_def Let_def split: option.splits)
  next
    case False
    then have nr: "?t \<notin> runningEvents st" by simp
    have c1: "card (T - insert ?t (runningEvents st)) < n"
    proof -
      have "card (T - runningEvents st) \<le> Suc (n - 1)" using Suc.prems(3) by simp
      moreover have "n > 0"
      proof -
        have "?t \<in> T - runningEvents st" using Suc.prems(2) nr by simp
        then have "card (T - runningEvents st) > 0" using assms by (auto simp: card_gt_0_iff)
        then show ?thesis using Suc.prems(3) by simp
      qed
      ultimately show ?thesis
        using card_Diff_insert_less[OF assms Suc.prems(2) nr, of "n - 1"] by simp
    qed
    have sv: "serves (nested_emit n) T ?st1"
      unfolding serves_def
    proof (intro allI impI)
      fix em' c' p' st'
      assume f: "frame ?st1 st'" and q: "qualify em' c' \<in> T"
      have sw: "scripts_within T st'" using scripts_within_frame[OF f] Suc.prems(1) by simp
      have "runningEvents st' = insert ?t (runningEvents st)" using f by (simp add: frame_def)
      then have "card (T - runningEvents st') < n" using c1 by simp
      from Suc.IH[OF sw q this] show "nested_emit n em' c' p' st' \<noteq> None" .
    qed
    have cv: "covers T st None None" using Suc.prems(1) by (simp add: covers_def override_list_def)
    have dt: "definition_topics (ce st ?t) \<subseteq> T"
      using Suc.prems(1,2) by (simp add: scripts_within_def)
    from emit_body_progress[OF well_behaved_nested_emit cv dt sv]
    show ?thesis by auto
  qed
qed

text \<open>
  Enough fuel. Let \<open>T\<close> be a finite set of topics that holds the emitted topic and every
  topic that a script of a subscriber, or of the definition of a topic in \<open>T\<close>, emits. Then
  a bound of at least the number of topics of \<open>T\<close> that are not running gives a result.
\<close>

lemma emit_private_returns:
  assumes "finite T" "covers T st bs as" "qualify emitter0 c \<in> T"
      and "card (T - runningEvents st) \<le> n"
  shows "\<exists>r. emit_private n emitter0 c payload0 bs as st = Some r"
proof -
  let ?t = "qualify emitter0 c"
  let ?st1 = "st\<lparr>runningEvents := insert ?t (runningEvents st)\<rparr>"
  have sw: "scripts_within T st" using assms(2) by (simp add: covers_def)
  have dt: "definition_topics (ce st ?t) \<subseteq> T" using sw assms(3) by (simp add: scripts_within_def)
  show ?thesis
  proof (cases "?t \<in> runningEvents st \<or> match_customevent ?t = None")
    case True
    then show ?thesis by (auto simp: emit_private_def emit_body_def Let_def split: option.splits)
  next
    case False
    then have nr: "?t \<notin> runningEvents st" by simp
    have c1: "card (T - insert ?t (runningEvents st)) < n"
    proof -
      have "?t \<in> T - runningEvents st" using assms(3) nr by simp
      then have "card (T - runningEvents st) > 0" using assms(1) by (auto simp: card_gt_0_iff)
      then have "card (T - runningEvents st) \<le> Suc (n - 1)" "n > 0" using assms(4) by simp_all
      then show ?thesis
        using card_Diff_insert_less[OF assms(1,3) nr, of "n - 1"] by simp
    qed
    have sv: "serves (nested_emit n) T ?st1"
      unfolding serves_def
    proof (intro allI impI)
      fix em' c' p' st'
      assume f: "frame ?st1 st'" and q: "qualify em' c' \<in> T"
      have sw': "scripts_within T st'" using scripts_within_frame[OF f] sw by simp
      have "runningEvents st' = insert ?t (runningEvents st)" using f by (simp add: frame_def)
      then have "card (T - runningEvents st') < n" using c1 by simp
      from nested_emit_progress[OF assms(1) sw' q this]
      show "nested_emit n em' c' p' st' \<noteq> None" .
    qed
    from emit_body_progress[OF well_behaved_nested_emit assms(2) dt sv]
    show ?thesis by (simp add: emit_private_def)
  qed
qed

lemma emit_private_returns_event:
  assumes "finite T" "covers T st bs as" "qualify emitter0 c \<in> T"
      and "card (T - runningEvents st) \<le> n"
      and "match_customevent (qualify emitter0 c) = Some ex"
      and "qualify emitter0 c \<notin> runningEvents st"
  shows "\<exists>e st'. emit_private n emitter0 c payload0 bs as st = Some (Some e, st')"
proof -
  from emit_private_returns[OF assms(1-4)] obtain r where
    r: "emit_private n emitter0 c payload0 bs as st = Some r" by blast
  then have "fst r \<noteq> None" using assms(5,6)
    by (auto simp: emit_private_def emit_body_def Let_def split: option.splits)
  then show ?thesis using r by (cases r) auto
qed

subsection \<open>A larger bound gives the same result\<close>

lemma run_action_mono:
  "extends nested nested' \<Longrightarrow> run_action nested x e st = Some r \<Longrightarrow>
   run_action nested' x e st = Some r"
  by (cases x) (auto simp: run_action_def extends_def split: option.splits)

lemma run_actions_mono:
  "extends nested nested' \<Longrightarrow> run_actions nested t sg xs e st = Some r \<Longrightarrow>
   run_actions nested' t sg xs e st = Some r"
proof (induction xs arbitrary: e st)
  case Nil
  then show ?case by simp
next
  case (Cons x xs)
  from Cons.prems(2) obtain r1 where
    r1: "run_action nested x e (console (Api t sg x) st) = Some r1"
    and rest: "run_actions nested t sg xs (fst r1) (snd r1) = Some r"
    by (auto split: option.splits)
  show ?case
    using run_action_mono[OF Cons.prems(1) r1] Cons.IH[OF Cons.prems(1) rest] by simp
qed

lemma call_callback_mono:
  "extends nested nested' \<Longrightarrow> call_callback nested t sg c e st = Some r \<Longrightarrow>
   call_callback nested' t sg c e st = Some r"
  by (cases c) (auto simp: call_callback_def split: option.splits if_splits
      dest: run_actions_mono)

lemma passes_filter_mono:
  "extends nested nested' \<Longrightarrow> passes_filter nested t sg cf sb e st = Some r \<Longrightarrow>
   passes_filter nested' t sg cf sb e st = Some r"
  by (auto simp: passes_filter_def split: option.splits if_splits dest: run_actions_mono)

lemma invoke_one_mono:
  assumes "extends nested nested'" "invoke_one nested t sg cf sb e st = Some r"
  shows "invoke_one nested' t sg cf sb e st = Some r"
proof -
  from assms(2) obtain pf r1 where
    pf: "passes_filter nested t sg cf sb e st = Some pf"
    and r1: "(if (\<not> sub_s sb \<or> JObj (sub_o sb) = e_target e) \<and> fst pf
              then call_callback nested t sg (sub_cb sb) (fst (snd pf))
                     (console (Invoked t sg sb) (snd (snd pf)))
              else Some (snd pf)) = Some r1"
    and r: "r = unsilence (fst r1) (snd r1)"
    by (auto simp: invoke_one_def Let_def split: option.splits)
  have "(if (\<not> sub_s sb \<or> JObj (sub_o sb) = e_target e) \<and> fst pf
              then call_callback nested' t sg (sub_cb sb) (fst (snd pf))
                     (console (Invoked t sg sb) (snd (snd pf)))
              else Some (snd pf)) = Some r1"
    using r1 call_callback_mono[OF assms(1)] by (auto split: if_splits)
  then show ?thesis using passes_filter_mono[OF assms(1) pf] r
    by (simp add: invoke_one_def Let_def)
qed

lemma some_loop_mono:
  "extends nested nested' \<Longrightarrow> some_loop nested t cf bef l e st = Some r \<Longrightarrow>
   some_loop nested' t cf bef l e st = Some r"
proof (induction l arbitrary: e st)
  case Nil
  then show ?case by simp
next
  case (Cons sb l)
  from Cons.prems(2) obtain r1 where
    r1: "invoke_one nested t (stage_of bef) cf sb e st = Some r1"
    and rest: "(if truthy (get_prop (getterResult (snd r1)) (fst r1) ''silent'')
                   \<or> (bef \<and> truthy (s_halted (e_status (fst r1))))
                then Some r1
                else some_loop nested t cf bef l (fst r1) (snd r1)) = Some r"
    by (auto split: option.splits)
  have "(if truthy (get_prop (getterResult (snd r1)) (fst r1) ''silent'')
                   \<or> (bef \<and> truthy (s_halted (e_status (fst r1))))
                then Some r1
                else some_loop nested' t cf bef l (fst r1) (snd r1)) = Some r"
    using rest Cons.IH[OF Cons.prems(1)] by (auto split: if_splits)
  then show ?case using invoke_one_mono[OF Cons.prems(1) r1] by simp
qed

lemma invokeSubs_mono:
  "extends nested nested' \<Longrightarrow> invokeSubs nested t cf bef subscribers e st = Some r \<Longrightarrow>
   invokeSubs nested' t cf bef subscribers e st = Some r"
  by (auto simp: invokeSubs_def split: option.splits if_splits dest: some_loop_mono)

lemma forEach_invokeSubs_mono:
  "extends nested nested' \<Longrightarrow> forEach_invokeSubs nested t bef buckets e st = Some r \<Longrightarrow>
   forEach_invokeSubs nested' t bef buckets e st = Some r"
proof (induction buckets arbitrary: e st)
  case Nil
  then show ?case by simp
next
  case (Cons b bs)
  from Cons.prems(2) obtain r1 where
    r1: "invokeSubs nested t True bef b e st = Some r1"
    and rest: "forEach_invokeSubs nested t bef bs (fst r1) (snd r1) = Some r"
    by (auto split: option.splits)
  show ?case
    using invokeSubs_mono[OF Cons.prems(1) r1] Cons.IH[OF Cons.prems(1) rest] by simp
qed

lemma subscriber_phase_mono:
  "extends nested nested' \<Longrightarrow> subscriber_phase nested t bef override buckets e st = Some r \<Longrightarrow>
   subscriber_phase nested' t bef override buckets e st = Some r"
  by (cases override)
     (auto simp: subscriber_phase_def dest: invokeSubs_mono forEach_invokeSubs_mono)

lemma default_phase_mono:
  "extends nested nested' \<Longrightarrow> default_phase nested t cd e st = Some r \<Longrightarrow>
   default_phase nested' t cd e st = Some r"
  by (auto simp: default_phase_def split: option.splits if_splits dest: run_actions_mono)

lemma after_phase_mono:
  "extends nested nested' \<Longrightarrow> after_phase nested t as buckets e st = Some r \<Longrightarrow>
   after_phase nested' t as buckets e st = Some r"
  by (auto simp: after_phase_def split: if_splits dest: subscriber_phase_mono)

lemma dispatch_mono:
  assumes "extends nested nested'"
      and "dispatch nested emitter0 t ex payload0 bs as st = Some r"
  shows "dispatch nested' emitter0 t ex payload0 bs as st = Some r"
proof -
  let ?bk = "resolve_buckets (subs st) t ex"
  let ?b = "build_event emitter0 (snd ex) (fst ex) (ce st t) payload0 st"
  from assms(2) obtain r1 r2 where
    p1: "subscriber_phase nested t True bs ?bk (fst ?b) (snd ?b) = Some r1"
    and p2: "default_phase nested t (ce st t) (resolve_ok (getterResult (snd r1)) (fst r1)) (snd r1)
               = Some r2"
    and p3: "after_phase nested t as ?bk (fst r2) (snd r2) = Some r"
    by (auto simp: dispatch_def Let_def split: option.splits)
  show ?thesis
    using subscriber_phase_mono[OF assms(1) p1] default_phase_mono[OF assms(1) p2]
      after_phase_mono[OF assms(1) p3]
    by (simp add: dispatch_def Let_def)
qed

lemma emit_body_mono:
  assumes "extends nested nested'"
      and "emit_body nested emitter0 c payload0 bs as st = Some r"
  shows "emit_body nested' emitter0 c payload0 bs as st = Some r"
  using assms(2) dispatch_mono[OF assms(1)]
  by (auto simp: emit_body_def Let_def split: option.splits if_splits)

lemma extends_refl: "extends nested nested"
  by (simp add: extends_def)

lemma extends_trans: "extends a b \<Longrightarrow> extends b c \<Longrightarrow> extends a c"
  by (simp add: extends_def)

lemma nested_emit_Suc: "extends (nested_emit n) (nested_emit (Suc n))"
proof (induction n)
  case 0
  then show ?case by (simp add: extends_def)
next
  case (Suc n)
  show ?case
    unfolding extends_def
    using emit_body_mono[OF Suc] by simp
qed

lemma nested_emit_mono: "n \<le> m \<Longrightarrow> extends (nested_emit n) (nested_emit m)"
proof (induction m)
  case 0
  then show ?case by (simp add: extends_refl)
next
  case (Suc m)
  show ?case
  proof (cases "n = Suc m")
    case True
    then show ?thesis by (simp add: extends_refl)
  next
    case False
    then have "n \<le> m" using Suc.prems by simp
    from extends_trans[OF Suc.IH[OF this] nested_emit_Suc] show ?thesis .
  qed
qed

text \<open>A result does not depend on the bound: a larger bound gives the same result.\<close>

lemma emit_private_mono:
  "emit_private n emitter0 c payload0 bs as st = Some r \<Longrightarrow> n \<le> m \<Longrightarrow>
   emit_private m emitter0 c payload0 bs as st = Some r"
  using emit_body_mono[OF nested_emit_mono] by (simp add: emit_private_def)

subsection \<open>The invoked subscribers are a prefix of the phase\<close>





subsection \<open>Entries that leave \<open>e.silent\<close> and \<open>status.halted\<close> alone\<close>



lemma get_prop_resolve_ok [simp]: "get_prop gr' (resolve_ok gr e) k = get_prop gr' e k"
  by (simp add: resolve_ok_def Let_def get_prop_def)

lemma get_prop_status_update [simp]:
  "get_prop gr (e\<lparr>e_status := s\<rparr>) k = get_prop gr e k"
  by (simp add: get_prop_def)



subsection \<open>The order of an emission\<close>

lemma build_event_any:
  assumes "build_event emitter0 ev em cd payload0 st = (e0, st0)"
  shows "s_ok (e_status e0) = None"
    and "s_halted (e_status e0) = JUndefined"
    and "e_target e0 = JObj emitter0"
proof -
  let ?m = "merge_payload (getterResult st) (defaultEventObj st) payload0
              (new_event emitter0 ev em cd)"
  have e0: "e0 = fst (unsilence ?m st)" using assms by (simp add: build_event_def)
  show "s_ok (e_status e0) = None" "s_halted (e_status e0) = JUndefined"
    unfolding e0 by (cases cd; simp add: unsilence_kept new_event_def empty_status_def)+
  have "e_target ?m = JObj emitter0"
    by (cases payload0) (simp_all add: merge_payload_def merge_keys_fixed new_event_def)
  then show "e_target e0 = JObj emitter0" unfolding e0 by (simp add: unsilence_def)
qed

lemma build_event_running [simp]:
  "fst (build_event emitter0 ev em cd payload0 (st\<lparr>runningEvents := R\<rparr>))
     = fst (build_event emitter0 ev em cd payload0 st)"
  by (simp add: build_event_def unsilence_def)


subsection \<open>A call of \<open>halt\<close> that takes effect\<close>

lemma payload_get_merged_slot: "read_slot gr' (merged_slot gr p k) = payload_get gr p k"
  by (simp add: merged_slot_def payload_get_def getOwnPropertyDescriptor_def read_slot_def
      split: option.splits descriptor.splits)

lemma haltable_build:
  "haltable (getterResult st) (fst (build_event emitter0 ev em (ce st t) payload0 st))
     = accepts_halt st t payload0"
proof (cases "ce st t")
  case (Some d)
  obtain e0 st0 where b: "build_event emitter0 ev em (Some d) payload0 st = (e0, st0)"
    by (cases "build_event emitter0 ev em (Some d) payload0 st")
  from build_event_fresh(7)[OF b] show ?thesis using Some b by (simp add: accepts_halt_def)
next
  case None
  let ?n = "new_event emitter0 ev em None"
  let ?m = "merge_payload (getterResult st) (defaultEventObj st) payload0 ?n"
  obtain e0 st0 where b: "build_event emitter0 ev em None payload0 st = (e0, st0)"
    by (cases "build_event emitter0 ev em None payload0 st")
  have e0: "e0 = fst (unsilence ?m st)" using b by (simp add: build_event_def)
  have "get_prop (getterResult st) e0 ''_unHaltable'' = get_prop (getterResult st) ?m ''_unHaltable''"
    unfolding e0 by (simp add: unsilence_kept)
  moreover have "truthy (get_prop (getterResult st) ?m ''_unHaltable'')
                   = carries (getterResult st) (defaultEventObj st) payload0 ''_unHaltable''"
    by (cases payload0)
       (auto simp: merge_payload_def get_prop_def merge_keys_props
          has_property_iff new_event_def carries_def payload_get_merged_slot)
  ultimately have "truthy (get_prop (getterResult st) e0 ''_unHaltable'')
               = carries (getterResult st) (defaultEventObj st) payload0 ''_unHaltable''"
    by simp
  then show ?thesis using None b build_event_any(1)[OF b]
    by (simp add: accepts_halt_def haltable_def)
qed

lemma halt_summary:
  assumes "emit_private n emitter0 customEvent payload0 bs as st = Some (Some e, st')"
      and "t = qualify emitter0 customEvent"
      and "match_customevent t = Some ex"
      and "new = new_trace st st'"
      and "accepts_halt st t payload0"
      and "halts (api_calls t Before new) \<noteq> []"
  shows "default_called t new = []" "prevented_called t new = []" "invoked t After new = []"
    and "s_ok (e_status e) = Some False"
    and "s_halted (e_status e) = reason_or_true (last (halts (api_calls t Before new)))"
proof -
  obtain em ev where ex: "ex = (em, ev)" by (cases ex)
  let ?st1 = "st\<lparr>runningEvents := insert t (runningEvents st)\<rparr>"
  have m: "match_customevent t = Some (em, ev)" using assms(3) ex by simp
  from emit_private_Some[OF assms(1)] m assms(2) obtain st2 where
    dsp: "dispatch (nested_emit n) emitter0 t (em, ev) payload0 bs as ?st1 = Some (e, st2)"
    and st': "st' = st2\<lparr>runningEvents := runningEvents st2 - {t}\<rparr>"
    by auto
  have run: "t \<in> runningEvents ?st1" by simp
  note wb = well_behaved_nested_emit[of n]
  from dispatch_phases[OF wb run m dsp]
  obtain e0 st0 n0 e1 st1 n1 e2 st2' n2 n3 where
    b: "build_event emitter0 ev em (ce ?st1 t) payload0 ?st1 = (e0, st0)"
    and i0: "\<forall>sg. invoked t sg n0 = [] \<and> api_calls t sg n0 = []"
    and d0: "default_called t n0 = [] \<and> prevented_called t n0 = []"
    and s1: "stage_step t Before e0 st0 n1 e1 st1"
    and dp: "default_phase (nested_emit n) t (ce ?st1 t) (resolve_ok (getterResult ?st1) e1) st1
               = Some (e2, st2')"
    and s2: "dispatch_step t st1 n2 st2'"
    and i2: "\<forall>sg. invoked t sg n2 = []" and a2: "api_calls t Before n2 = []"
    and s3: "stage_step t After e2 st2' n3 (fst (e, st2)) (snd (e, st2))"
    and sk: "s_ok (e_status e2) \<noteq> Some True \<longrightarrow> n3 = [] \<and> (e, st2) = (e2, st2')"
    and tr: "trace (snd (e, st2)) = trace ?st1 @ n0 @ n1 @ n2 @ n3"
    and r0: "t \<in> runningEvents st0" and r2: "t \<in> runningEvents st2'"
    and g0: "getterResult st0 = getterResult ?st1"
    by metis
  have nt: "new = n0 @ n1 @ n2 @ n3" using tr by (simp add: assms(4) new_trace_def st')
  have calls: "api_calls t Before new = api_calls t Before n1"
    using i0 a2 stage_step_other(4)[OF s3 r2, of Before] by (simp add: nt)
  have e0: "e0 = fst (build_event emitter0 ev em (ce st t) payload0 st)"
    using arg_cong[OF b, of fst] by simp
  have hb: "haltable (getterResult st) e0" using haltable_build[of st emitter0 ev em t payload0]
    assms(5) by (simp add: e0)
  have e1: "e1 = replay (getterResult st0) t Before n1 e0" using s1 by (simp add: stage_step_def)
  have h1: "s_halted (e_status e1) = reason_or_true (last (halts (api_calls t Before new)))"
    using hb assms(6) g0 by (simp add: e1 replay_halted calls)
  let ?r = "resolve_ok (getterResult ?st1) e1"
  have hr: "truthy (s_halted (e_status ?r))" by (simp add: h1)
  have "(e2, st2') = (?r, st1)" using default_phase_skip[of "ce ?st1 t" ?r] hr dp by simp
  then have e2: "e2 = ?r" and n2: "n2 = []" using s2 by (simp_all add: dispatch_step_def)
  have "s_ok (e_status e2) = Some False" by (simp add: e2 h1)
  then have n3: "n3 = []" and ee: "e = e2" using sk by simp_all
  show "default_called t new = []" "prevented_called t new = []"
    using d0 stage_step_other(1,2)[OF s1 r0] by (simp_all add: nt n2 n3)
  show "invoked t After new = []"
    using i0 stage_step_other(3)[OF s1 r0, of After] by (simp add: nt n2 n3)
  show "s_ok (e_status e) = Some False" by (simp add: ee e2 h1)
  show "s_halted (e_status e) = reason_or_true (last (halts (api_calls t Before new)))"
    by (simp add: ee e2 h1)
qed

section \<open>The claims about an emission\<close>

text \<open>
  In the theorems of this section \<open>T\<close> is a finite set of topics that holds the emitted
  topic and every topic that a script of a subscriber, or of the definition of a topic of
  \<open>T\<close>, emits; a bound \<open>n\<close> of at least the number of topics of \<open>T\<close> that are not running
  is enough for the emission to return.
\<close>




text \<open>
  C2, as the code has it. Let the emitted topic have a definition that is not
  \<open>unHaltable\<close>, or no definition and a payload that carries no truthy \<open>_unHaltable\<close>. The
  emission returns an event object, and if \<open>halt\<close> was called while the before-subscribers
  ran: no default function and no prevented function of the topic is called, no
  after-subscriber is invoked, \<open>status.ok\<close> is false, and \<open>status.halted\<close> is the reason of
  the last such call, or \<open>true\<close> when that reason is missing or falsy.
\<close>

theorem halt_stops_the_emission:
  assumes "finite T" and "covers T st bs as"
      and "qualify emitter0 customEvent \<in> T"
      and "card (T - runningEvents st) \<le> n"
      and "match_customevent (qualify emitter0 customEvent) = Some ex"
      and "qualify emitter0 customEvent \<notin> runningEvents st"
      and "accepts_halt st (qualify emitter0 customEvent) payload0"
  shows "\<exists>e st'. emit_private n emitter0 customEvent payload0 bs as st = Some (Some e, st')
       \<and> (halts (api_calls (qualify emitter0 customEvent) Before (new_trace st st')) \<noteq> [] \<longrightarrow>
            default_called (qualify emitter0 customEvent) (new_trace st st') = []
            \<and> prevented_called (qualify emitter0 customEvent) (new_trace st st') = []
            \<and> invoked (qualify emitter0 customEvent) After (new_trace st st') = []
            \<and> s_ok (e_status e) = Some False
            \<and> s_halted (e_status e)
                = reason_or_true
                    (last (halts (api_calls (qualify emitter0 customEvent) Before
                                    (new_trace st st')))))"
proof -
  from emit_private_returns_event[OF assms(1-6)] obtain e st' where
    r: "emit_private n emitter0 customEvent payload0 bs as st = Some (Some e, st')" by blast
  note S = halt_summary[OF r refl assms(5) refl assms(7)]
  show ?thesis using r S by blast
qed

theorem halt_stops_the_emission_witness:
  "\<exists>e st'. emit_private 2 redObject ''red:save'' None None None
              (subscribed fn_emit_halt both_functions) = Some (Some e, st')
     \<and> finite {''red:save'', ''red:b''}
     \<and> covers {''red:save'', ''red:b''} (subscribed fn_emit_halt both_functions) None None
     \<and> card ({''red:save'', ''red:b''} - runningEvents (subscribed fn_emit_halt both_functions))
         \<le> 2
     \<and> match_customevent (qualify redObject ''red:save'') = Some (''red'', ''save'')
     \<and> qualify redObject ''red:save'' \<notin> runningEvents (subscribed fn_emit_halt both_functions)
     \<and> accepts_halt (subscribed fn_emit_halt both_functions) (qualify redObject ''red:save'') None
     \<and> api_calls (qualify redObject ''red:save'') Before
         (new_trace (subscribed fn_emit_halt both_functions) st')
         = [Emit redObject ''red:b'' None, Halt (JStr ''stop'')]
     \<and> default_called (qualify redObject ''red:save'')
         (new_trace (subscribed fn_emit_halt both_functions) st') = []
     \<and> prevented_called (qualify redObject ''red:save'')
         (new_trace (subscribed fn_emit_halt both_functions) st') = []
     \<and> invoked (qualify redObject ''red:save'') After
         (new_trace (subscribed fn_emit_halt both_functions) st') = []
     \<and> s_ok (e_status e) = Some False
     \<and> s_halted (e_status e) = JStr ''stop''"
proof -
  let ?st = "subscribed fn_emit_halt both_functions"
  let ?T = "{''red:save'', ''red:b''}"
  let ?t = "qualify redObject ''red:save''"
  have fin: "finite ?T" by simp
  have cov: "covers ?T ?st None None" by code_simp
  have tin: "?t \<in> ?T" by code_simp
  have cd: "card (?T - runningEvents ?st) \<le> 2" by code_simp
  have m: "match_customevent ?t = Some (''red'', ''save'')" by code_simp
  have nr: "?t \<notin> runningEvents ?st" by code_simp
  have ah: "accepts_halt ?st ?t None" by code_simp
  have ev: "map_option (\<lambda>r. api_calls ?t Before (new_trace ?st (snd r)))
              (emit_private 2 redObject ''red:save'' None None None ?st)
            = Some [Emit redObject ''red:b'' None, Halt (JStr ''stop'')]"
    by code_simp
  from halt_stops_the_emission [OF fin cov tin cd m nr ah] obtain e st' where
    r: "emit_private 2 redObject ''red:save'' None None None ?st = Some (Some e, st')"
    and c: "halts (api_calls ?t Before (new_trace ?st st')) \<noteq> [] \<longrightarrow>
            default_called ?t (new_trace ?st st') = []
            \<and> prevented_called ?t (new_trace ?st st') = []
            \<and> invoked ?t After (new_trace ?st st') = []
            \<and> s_ok (e_status e) = Some False
            \<and> s_halted (e_status e)
                = reason_or_true (last (halts (api_calls ?t Before (new_trace ?st st'))))"
    by blast
  from ev r have
    ac: "api_calls ?t Before (new_trace ?st st') = [Emit redObject ''red:b'' None, Halt (JStr ''stop'')]"
    by simp
  have l: "reason_or_true (last (halts (api_calls ?t Before (new_trace ?st st')))) = JStr ''stop''"
    by (simp add: ac reason_or_true_def)
  have h: "halts (api_calls ?t Before (new_trace ?st st')) \<noteq> []" by (simp add: ac)
  from c h l have
    "default_called ?t (new_trace ?st st') = []"
    "prevented_called ?t (new_trace ?st st') = []"
    "invoked ?t After (new_trace ?st st') = []"
    "s_ok (e_status e) = Some False"
    "s_halted (e_status e) = JStr ''stop''"
    by simp_all
  then show ?thesis using r fin cov cd m nr ah ac by blast
qed

text \<open>
  C2 as stated fails for a topic that was never defined: with the payload
  \<open>{_unHaltable: true}\<close>, an emission of \<open>red:save\<close> whose before-subscriber calls
  \<open>e.halt('stop')\<close> returns \<open>status.ok = true\<close> and no \<open>status.halted\<close>, and invokes the
  after-subscriber.
\<close>

theorem halt_ignored_with_unHaltable_payload:
  "map_option (\<lambda>r. (map_option (\<lambda>e. (s_ok (e_status e), s_halted (e_status e))) (fst r),
                     api_calls ''red:save'' Before
                       (new_trace (subscribed fn_halt init_state) (snd r)),
                     invoked ''red:save'' After
                       (new_trace (subscribed fn_halt init_state) (snd r))))
     (emit 0 redObject ''red:save'' (Some unHaltable_payload) (subscribed fn_halt init_state))
     = Some (Some (Some True, JUndefined), [Halt (JStr ''stop'')], [record_of fn_after])
   \<and> ce (subscribed fn_halt init_state) ''red:save'' = None"
  by code_simp

text \<open>
  C3, as the code has it. An emission of a topic whose definition is not \<open>unPreventable\<close>
  returns an event object, and if \<open>preventDefault\<close> was called while the before-subscribers
  ran: the default function is not called, no after-subscriber is invoked and
  \<open>status.ok\<close> is false. When no call of \<open>halt\<close> was made, the prevented function is called
  once if the definition has one and not at all if it has none, and \<open>status.preventedFn\<close>
  is set exactly when the definition has a prevented function.
\<close>

theorem preventDefault_calls_preventedFn_if_any:
  assumes "finite T" and "covers T st bs as"
      and "qualify emitter0 customEvent \<in> T"
      and "card (T - runningEvents st) \<le> n"
      and "match_customevent (qualify emitter0 customEvent) = Some ex"
      and "qualify emitter0 customEvent \<notin> runningEvents st"
      and "ce st (qualify emitter0 customEvent) = Some d"
      and "\<not> unPreventable d"
  shows "\<exists>e st'. emit_private n emitter0 customEvent payload0 bs as st = Some (Some e, st')
       \<and> (prevents (api_calls (qualify emitter0 customEvent) Before (new_trace st st')) \<noteq> [] \<longrightarrow>
            default_called (qualify emitter0 customEvent) (new_trace st st') = []
            \<and> invoked (qualify emitter0 customEvent) After (new_trace st st') = []
            \<and> s_ok (e_status e) = Some False
            \<and> (halts (api_calls (qualify emitter0 customEvent) Before (new_trace st st')) = [] \<longrightarrow>
                 prevented_called (qualify emitter0 customEvent) (new_trace st st')
                   = (case preventedFn d of None \<Rightarrow> [] | Some f \<Rightarrow> [f])
                 \<and> s_preventedFn (e_status e) = (preventedFn d \<noteq> None)))"
proof -
  let ?t = "qualify emitter0 customEvent"
  from emit_private_returns_event[OF assms(1-6)] obtain e st' where
    r: "emit_private n emitter0 customEvent payload0 bs as st = Some (Some e, st')" by blast
  note S = emission_summary[OF r refl assms(7) assms(5) refl refl refl refl refl]
  let ?H = "\<not> unHaltable d \<and> halts (api_calls ?t Before (new_trace st st')) \<noteq> []"
  have "default_called ?t (new_trace st st') = []
        \<and> invoked ?t After (new_trace st st') = []
        \<and> s_ok (e_status e) = Some False
        \<and> (halts (api_calls ?t Before (new_trace st st')) = [] \<longrightarrow>
             prevented_called ?t (new_trace st st')
               = (case preventedFn d of None \<Rightarrow> [] | Some f \<Rightarrow> [f])
             \<and> s_preventedFn (e_status e) = (preventedFn d \<noteq> None))"
    if p: "prevents (api_calls ?t Before (new_trace st st')) \<noteq> []"
  proof -
    have P: "\<not> unPreventable d \<and> prevents (api_calls ?t Before (new_trace st st')) \<noteq> []"
      using assms(8) p by simp
    have ok: "s_ok (e_status e) = Some False" using S(1) P by simp
    have a: "invoked ?t After (new_trace st st') = []" using S(6)[OF disjI2[OF P]] .
    have dc: "default_called ?t (new_trace st st') = []"
    proof (cases ?H)
      case True
      then show ?thesis using S(3) by simp
    next
      case False
      then show ?thesis using S(4)[OF False disjI1[OF P]] by simp
    qed
    have "prevented_called ?t (new_trace st st')
                = (case preventedFn d of None \<Rightarrow> [] | Some f \<Rightarrow> [f])
              \<and> s_preventedFn (e_status e) = (preventedFn d \<noteq> None)"
      if "halts (api_calls ?t Before (new_trace st st')) = []"
    proof -
      have nH: "\<not> ?H" using that by simp
      show ?thesis using S(4)[OF nH disjI1[OF P]] by simp
    qed
    then show ?thesis using ok a dc by simp
  qed
  then show ?thesis using r by blast
qed

theorem preventDefault_calls_preventedFn_if_any_witness:
  "\<exists>e st'. emit_private 2 redObject ''red:save'' None None None
              (subscribed fn_emit_prevent both_functions) = Some (Some e, st')
     \<and> finite {''red:save'', ''red:b''}
     \<and> covers {''red:save'', ''red:b''} (subscribed fn_emit_prevent both_functions) None None
     \<and> card ({''red:save'', ''red:b''} - runningEvents (subscribed fn_emit_prevent both_functions))
         \<le> 2
     \<and> match_customevent (qualify redObject ''red:save'') = Some (''red'', ''save'')
     \<and> qualify redObject ''red:save'' \<notin> runningEvents (subscribed fn_emit_prevent both_functions)
     \<and> map_option (\<lambda>d. (unPreventable d, preventedFn d))
         (ce (subscribed fn_emit_prevent both_functions) (qualify redObject ''red:save''))
         = Some (False, Some fn_prevented)
     \<and> api_calls (qualify redObject ''red:save'') Before
         (new_trace (subscribed fn_emit_prevent both_functions) st')
         = [Emit redObject ''red:b'' None, PreventDefault JUndefined]
     \<and> default_called (qualify redObject ''red:save'')
         (new_trace (subscribed fn_emit_prevent both_functions) st') = []
     \<and> invoked (qualify redObject ''red:save'') After
         (new_trace (subscribed fn_emit_prevent both_functions) st') = []
     \<and> s_ok (e_status e) = Some False
     \<and> prevented_called (qualify redObject ''red:save'')
         (new_trace (subscribed fn_emit_prevent both_functions) st') = [fn_prevented]
     \<and> s_preventedFn (e_status e)"
proof -
  let ?st = "subscribed fn_emit_prevent both_functions"
  let ?T = "{''red:save'', ''red:b''}"
  let ?t = "qualify redObject ''red:save''"
  have fin: "finite ?T" by simp
  have cov: "covers ?T ?st None None" by code_simp
  have tin: "?t \<in> ?T" by code_simp
  have cd: "card (?T - runningEvents ?st) \<le> 2" by code_simp
  have m: "match_customevent ?t = Some (''red'', ''save'')" by code_simp
  have nr: "?t \<notin> runningEvents ?st" by code_simp
  have u: "map_option (\<lambda>d. (unPreventable d, preventedFn d)) (ce ?st ?t)
             = Some (False, Some fn_prevented)" by code_simp
  then obtain d where d: "ce ?st ?t = Some d" and nu: "\<not> unPreventable d"
    and pf: "preventedFn d = Some fn_prevented" by auto
  have ev: "map_option (\<lambda>r. api_calls ?t Before (new_trace ?st (snd r)))
              (emit_private 2 redObject ''red:save'' None None None ?st)
            = Some [Emit redObject ''red:b'' None, PreventDefault JUndefined]"
    by code_simp
  from preventDefault_calls_preventedFn_if_any [OF fin cov tin cd m nr d nu] obtain e st' where
    r: "emit_private 2 redObject ''red:save'' None None None ?st = Some (Some e, st')"
    and c: "prevents (api_calls ?t Before (new_trace ?st st')) \<noteq> [] \<longrightarrow>
            default_called ?t (new_trace ?st st') = []
            \<and> invoked ?t After (new_trace ?st st') = []
            \<and> s_ok (e_status e) = Some False
            \<and> (halts (api_calls ?t Before (new_trace ?st st')) = [] \<longrightarrow>
                 prevented_called ?t (new_trace ?st st')
                   = (case preventedFn d of None \<Rightarrow> [] | Some f \<Rightarrow> [f])
                 \<and> s_preventedFn (e_status e) = (preventedFn d \<noteq> None))"
    by blast
  from ev r have
    ac: "api_calls ?t Before (new_trace ?st st')
           = [Emit redObject ''red:b'' None, PreventDefault JUndefined]"
    by simp
  have p: "prevents (api_calls ?t Before (new_trace ?st st')) \<noteq> []" by (simp add: ac)
  have h: "halts (api_calls ?t Before (new_trace ?st st')) = []" by (simp add: ac)
  from c p h pf have
    "default_called ?t (new_trace ?st st') = []"
    "invoked ?t After (new_trace ?st st') = []"
    "s_ok (e_status e) = Some False"
    "prevented_called ?t (new_trace ?st st') = [fn_prevented]"
    "s_preventedFn (e_status e)"
    by simp_all
  then show ?thesis using r fin cov cd m nr u ac by blast
qed

text \<open>
  C3 as stated fails for a definition without a prevented function: after
  \<open>Event.defineEvent('red:save').defaultFn(fn_default)\<close>, an emission of \<open>red:save\<close> whose
  before-subscriber calls \<open>e.preventDefault()\<close> calls no prevented function and leaves
  \<open>status.preventedFn\<close> unset.
\<close>

theorem preventDefault_without_preventedFn:
  "map_option (\<lambda>r. (map_option (\<lambda>e. (s_preventedFn (e_status e), s_ok (e_status e))) (fst r),
                     api_calls ''red:save'' Before
                       (new_trace (subscribed fn_prevent default_only) (snd r)),
                     prevented_called ''red:save''
                       (new_trace (subscribed fn_prevent default_only) (snd r)),
                     default_called ''red:save''
                       (new_trace (subscribed fn_prevent default_only) (snd r))))
     (emit 0 redObject ''red:save'' None (subscribed fn_prevent default_only))
     = Some (Some (False, Some False), [PreventDefault JUndefined], [], [])
   \<and> map_option (\<lambda>d. (unPreventable d, preventedFn d, defaultFn d))
       (ce (subscribed fn_prevent default_only) ''red:save'')
     = Some (False, None, Some fn_default)"
  by code_simp




end
